theory Spec2Isabelle
  imports Complex_Main "HOL-Library.Char_ord" "HOL-Library.List_Lexorder" "HOL-Library.AList"
begin

section \<open>Strings\<close>

text \<open>
  Python's \<^verbatim>\<open>str.lower()\<close> and \<^verbatim>\<open>str.upper()\<close>, on ASCII text: the letters
  \<^verbatim>\<open>A-Z\<close> and \<^verbatim>\<open>a-z\<close> are mapped onto each other, every other byte is kept.
  SQLite compares TEXT values bytewise (BINARY collation); on \<^typ>\<open>string\<close> that is the
  lexicographic order of \<^theory_text>\<open>List_Lexorder\<close> over the byte order of
  \<^theory_text>\<open>Char_ord\<close>.
\<close>

definition lower_char :: "char \<Rightarrow> char" where
  "lower_char c =
     (let n = (of_char c :: nat) in if 65 \<le> n \<and> n \<le> 90 then char_of (n + 32) else c)"

definition upper_char :: "char \<Rightarrow> char" where
  "upper_char c =
     (let n = (of_char c :: nat) in if 97 \<le> n \<and> n \<le> 122 then char_of (n - 32) else c)"

definition str_lower :: "string \<Rightarrow> string" where
  "str_lower s = map lower_char s"

definition str_upper :: "string \<Rightarrow> string" where
  "str_upper s = map upper_char s"

section \<open>The transactions table\<close>

text \<open>
  One row of the table \<^verbatim>\<open>transactions\<close> created by \<^verbatim>\<open>init_db\<close>: the eight columns of
  \<^verbatim>\<open>CREATE TABLE\<close> and the six columns added by the migration loop, with their defaults
  (\<^verbatim>\<open>notified\<close> 0, \<^verbatim>\<open>debt_status\<close> 'open', \<^verbatim>\<open>is_deleted\<close> 0). The two REAL columns
  \<^verbatim>\<open>amount\<close> and \<^verbatim>\<open>balance\<close> range over a type \<open>'a\<close> with \<open>0\<close>, \<open>+\<close> and \<open>-\<close>: the
  operations below use nothing else of the numbers, so what is proved of them holds for
  every such arithmetic. The column \<^verbatim>\<open>id\<close> is called \<open>row_id\<close> and the column
  \<^verbatim>\<open>type\<close> is called \<open>trans_type\<close>. The 0/1 columns are booleans.
\<close>

record 'a transaction =
  row_id :: int
  user_id :: int
  date :: string
  trans_type :: string
  category :: string
  amount :: 'a
  balance :: 'a
  description :: string
  currency :: string
  debtor_name :: "string option"
  return_date :: "string option"
  notified :: bool
  debt_status :: string
  is_deleted :: bool

text \<open>
  The database file: the rows of \<^verbatim>\<open>transactions\<close> in the order of the table's B-tree
  (ascending \<^verbatim>\<open>id\<close>), and the counter that \<^verbatim>\<open>AUTOINCREMENT\<close> keeps in
  \<^verbatim>\<open>sqlite_sequence\<close>: the largest \<^verbatim>\<open>id\<close> ever committed.
\<close>

record 'a database =
  transactions :: "'a transaction list"
  sqlite_sequence :: int

definition init_db :: "'a database" where
  "init_db = \<lparr>transactions = [], sqlite_sequence = 0\<rparr>"

text \<open>\<^verbatim>\<open>ORDER BY id ASC\<close> and \<^verbatim>\<open>ORDER BY id DESC\<close>.\<close>

definition order_by_id :: "'a transaction list \<Rightarrow> 'a transaction list" where
  "order_by_id rs = sort_key row_id rs"

definition order_by_id_desc :: "'a transaction list \<Rightarrow> 'a transaction list" where
  "order_by_id_desc rs = rev (sort_key row_id rs)"

text \<open>
  The \<^verbatim>\<open>id\<close> an \<^verbatim>\<open>INSERT\<close> gives a row of an \<^verbatim>\<open>AUTOINCREMENT\<close> table: one more than the
  largest \<^verbatim>\<open>id\<close> that ever existed in the table.
\<close>

definition next_rowid :: "'a database \<Rightarrow> int" where
  "next_rowid db = fold max (map row_id (transactions db)) (sqlite_sequence db) + 1"

section \<open>Errors\<close>

text \<open>
  \<open>KeyError\<close>: \<^verbatim>\<open>balances[currency]\<close> on a currency the dictionary does not hold.
  \<open>ValueError\<close>: \<^verbatim>\<open>raise ValueError("Transaction not found.")\<close>.
  \<open>NotCompleted\<close>: the handler's reply "This action could not be completed.".
\<close>

datatype error = KeyError string | ValueError | NotCompleted

section \<open>Balances and batch insertion\<close>

text \<open>
  \<^verbatim>\<open>get_last_balance\<close>: \<^verbatim>\<open>SELECT balance ... WHERE user_id = ? AND currency = ? AND
  is_deleted = 0 ORDER BY id DESC LIMIT 1\<close> with the currency upper-cased; \<open>0\<close> when there
  is no row.
\<close>

definition get_last_balance :: "('a::zero) database \<Rightarrow> int \<Rightarrow> string \<Rightarrow> 'a" where
  "get_last_balance db uid cur =
     (case order_by_id_desc
             (filter (\<lambda>r. user_id r = uid \<and> currency r = str_upper cur \<and> \<not> is_deleted r)
                (transactions db)) of
        [] \<Rightarrow> 0
      | r # _ \<Rightarrow> balance r)"

text \<open>
  A candidate of a batch: the dictionary \<^verbatim>\<open>trans\<close>. The keys \<^verbatim>\<open>type\<close>, \<^verbatim>\<open>amount\<close>,
  \<^verbatim>\<open>category\<close> and \<^verbatim>\<open>description\<close> are read with \<^verbatim>\<open>trans[...]\<close>; \<^verbatim>\<open>currency\<close>,
  \<^verbatim>\<open>debtor_name\<close> and \<^verbatim>\<open>return_date\<close> with \<^verbatim>\<open>trans.get(...)\<close>, so they may be absent.
\<close>

record 'a draft =
  d_type :: string
  d_amount :: 'a
  d_category :: string
  d_description :: string
  d_currency :: "string option"
  d_debtor_name :: "string option"
  d_return_date :: "string option"

text \<open>\<^verbatim>\<open>currency = trans.get('currency', 'UZS').upper()\<close>\<close>

definition draft_currency :: "'a draft \<Rightarrow> string" where
  "draft_currency t = str_upper (case d_currency t of None \<Rightarrow> ''UZS'' | Some c \<Rightarrow> c)"

text \<open>
  The \<^verbatim>\<open>INSERT\<close> of one candidate: the row gets the next \<^verbatim>\<open>id\<close>, the column defaults, and
  the time \<open>clock\<close> reads at that insertion (\<^verbatim>\<open>datetime.now(timezone.utc).isoformat()\<close>,
  given as a function of the new \<^verbatim>\<open>id\<close>).
\<close>

definition new_row ::
  "(int \<Rightarrow> string) \<Rightarrow> int \<Rightarrow> int \<Rightarrow> 'a draft \<Rightarrow> string \<Rightarrow> 'a \<Rightarrow> 'a transaction" where
  "new_row clock new_id uid t cur bal =
     \<lparr>row_id = new_id, user_id = uid, date = clock new_id, trans_type = d_type t,
      category = d_category t, amount = d_amount t, balance = bal,
      description = d_description t, currency = cur, debtor_name = d_debtor_name t,
      return_date = d_return_date t, notified = False, debt_status = ''open'',
      is_deleted = False\<rparr>"

definition insert_row ::
  "(int \<Rightarrow> string) \<Rightarrow> 'a database \<Rightarrow> int \<Rightarrow> 'a draft \<Rightarrow> string \<Rightarrow> 'a \<Rightarrow> 'a database" where
  "insert_row clock db uid t cur bal =
     \<lparr>transactions = transactions db @ [new_row clock (next_rowid db) uid t cur bal],
      sqlite_sequence = next_rowid db\<rparr>"

text \<open>
  The loop of \<^verbatim>\<open>add_multiple_transactions\<close>. Its state is the connection's uncommitted view
  of the table, the dictionary \<^verbatim>\<open>balances\<close> (an association list, in the dictionary's
  order) and \<^verbatim>\<open>new_transaction_ids\<close>. A candidate whose lower-cased type is neither
  'expense' nor 'income' is skipped by \<^verbatim>\<open>continue\<close>; \<^verbatim>\<open>balances[currency]\<close> on a currency
  that is not a key raises \<^verbatim>\<open>KeyError\<close>, which leaves the function before
  \<^verbatim>\<open>conn.commit()\<close>.
\<close>

fun add_loop ::
  "(int \<Rightarrow> string) \<Rightarrow> int \<Rightarrow> ('a::{plus,minus}) draft list \<Rightarrow>
   'a database \<times> (string \<times> 'a) list \<times> int list \<Rightarrow>
   error + 'a database \<times> (string \<times> 'a) list \<times> int list" where
  "add_loop clock uid [] st = Inr st"
| "add_loop clock uid (t # ts) (db, balances, new_transaction_ids) =
     (let amnt = d_amount t;
          ttype = str_lower (d_type t);
          cur = draft_currency t
      in if ttype = ''expense'' then
           (case map_of balances cur of
              None \<Rightarrow> Inl (KeyError cur)
            | Some b \<Rightarrow>
                add_loop clock uid ts
                  (insert_row clock db uid t cur (b - amnt),
                   AList.update cur (b - amnt) balances,
                   new_transaction_ids @ [next_rowid db]))
         else if ttype = ''income'' then
           (case map_of balances cur of
              None \<Rightarrow> Inl (KeyError cur)
            | Some b \<Rightarrow>
                add_loop clock uid ts
                  (insert_row clock db uid t cur (b + amnt),
                   AList.update cur (b + amnt) balances,
                   new_transaction_ids @ [next_rowid db]))
         else add_loop clock uid ts (db, balances, new_transaction_ids))"

text \<open>
  \<^verbatim>\<open>add_multiple_transactions\<close>: the balances are seeded from \<^verbatim>\<open>get_last_balance\<close>, the loop
  runs, and \<^verbatim>\<open>conn.commit()\<close> makes the inserted rows the new database. When the loop
  raises, nothing is committed: the result is the error and the database stays as it was.
\<close>

definition add_multiple_transactions ::
  "(int \<Rightarrow> string) \<Rightarrow> ('a::{zero,plus,minus}) database \<Rightarrow> int \<Rightarrow> 'a draft list \<Rightarrow>
   error + 'a database \<times> (string \<times> 'a) list \<times> int list" where
  "add_multiple_transactions clock db uid ts =
     add_loop clock uid ts
       (db, [(''UZS'', get_last_balance db uid ''UZS''), (''USD'', get_last_balance db uid ''USD'')], [])"

text \<open>
  \<^verbatim>\<open>get_all_transactions\<close>: \<^verbatim>\<open>SELECT * ... WHERE user_id = ? AND is_deleted = 0 ORDER BY id
  DESC\<close>.
\<close>

definition get_all_transactions :: "'a database \<Rightarrow> int \<Rightarrow> 'a transaction list" where
  "get_all_transactions db uid =
     order_by_id_desc (filter (\<lambda>r. user_id r = uid \<and> \<not> is_deleted r) (transactions db))"

section \<open>Soft deletion and recalculation\<close>

text \<open>\<^verbatim>\<open>UPDATE transactions SET is_deleted = 1 WHERE id = ?\<close>\<close>

definition set_is_deleted :: "int \<Rightarrow> 'a transaction list \<Rightarrow> 'a transaction list" where
  "set_is_deleted tid rs = map (\<lambda>r. if row_id r = tid then r\<lparr>is_deleted := True\<rparr> else r) rs"

text \<open>\<^verbatim>\<open>UPDATE transactions SET balance = ? WHERE id = ?\<close>\<close>

definition set_balance :: "'a \<Rightarrow> int \<Rightarrow> 'a transaction list \<Rightarrow> 'a transaction list" where
  "set_balance b tid rs = map (\<lambda>r. if row_id r = tid then r\<lparr>balance := b\<rparr> else r) rs"

text \<open>
  The loop over \<^verbatim>\<open>subsequent_transactions\<close>, the fetched triples \<^verbatim>\<open>(id, type, amount)\<close>:
  an 'expense' (lower-cased) is subtracted, anything else is added, and the row's balance
  is overwritten.
\<close>

fun recalculate ::
  "('a::{plus,minus}) \<Rightarrow> (int \<times> string \<times> 'a) list \<Rightarrow> 'a transaction list \<Rightarrow>
   'a transaction list" where
  "recalculate current_balance [] rs = rs"
| "recalculate current_balance ((sub_id, sub_type, sub_amount) # subs) rs =
     (let current_balance' =
            (if str_lower sub_type = ''expense'' then current_balance - sub_amount
             else current_balance + sub_amount)
      in recalculate current_balance' subs (set_balance current_balance' sub_id rs))"

text \<open>
  \<^verbatim>\<open>delete_transaction_and_recalculate\<close>, between \<^verbatim>\<open>BEGIN\<close> and \<^verbatim>\<open>commit\<close>: the row is
  looked up by id and user among the rows that are not deleted (\<open>ValueError\<close> when there is
  none, and the rollback leaves the database as it was), marked deleted, the balance of
  the latest earlier row of the same user and currency is the start (\<open>0\<close> without one),
  and the later rows of that user and currency are recalculated in ascending \<^verbatim>\<open>id\<close>.
\<close>

definition delete_transaction_and_recalculate ::
  "('a::{zero,plus,minus}) database \<Rightarrow> int \<Rightarrow> int \<Rightarrow> error + 'a database" where
  "delete_transaction_and_recalculate db uid transaction_id =
     (case find (\<lambda>r. row_id r = transaction_id \<and> user_id r = uid \<and> \<not> is_deleted r)
             (transactions db) of
        None \<Rightarrow> Inl ValueError
      | Some trans_to_delete \<Rightarrow>
          (let rs = set_is_deleted transaction_id (transactions db);
               previous_balance =
                 order_by_id_desc
                   (filter (\<lambda>r. user_id r = uid \<and> currency r = currency trans_to_delete \<and>
                                 row_id r < transaction_id \<and> \<not> is_deleted r) rs);
               current_balance =
                 (case previous_balance of [] \<Rightarrow> 0 | r # _ \<Rightarrow> balance r);
               subsequent_transactions =
                 map (\<lambda>r. (row_id r, trans_type r, amount r))
                   (order_by_id
                      (filter (\<lambda>r. user_id r = uid \<and> currency r = currency trans_to_delete \<and>
                                    row_id r > transaction_id \<and> \<not> is_deleted r) rs))
           in Inr (db\<lparr>transactions := recalculate current_balance subsequent_transactions rs\<rparr>)))"

section \<open>Debts\<close>

text \<open>\<^verbatim>\<open>UPDATE transactions SET debt_status = 'paid' WHERE id = ?\<close>\<close>

definition set_debt_paid :: "int \<Rightarrow> 'a database \<Rightarrow> 'a database" where
  "set_debt_paid tid db =
     db\<lparr>transactions :=
          map (\<lambda>r. if row_id r = tid then r\<lparr>debt_status := ''paid''\<rparr> else r) (transactions db)\<rparr>"

text \<open>
  The candidate the handler builds from the debt's row. The f-string prints a missing
  \<^verbatim>\<open>debtor_name\<close> as \<^verbatim>\<open>None\<close>.
\<close>

definition repayment_draft :: "'a transaction \<Rightarrow> 'a draft" where
  "repayment_draft debt_trans =
     \<lparr>d_type = ''income'', d_amount = amount debt_trans, d_category = ''Debt Repayment'',
      d_description = ''Repayment from '' @
         (case debtor_name debt_trans of None \<Rightarrow> ''None'' | Some n \<Rightarrow> n),
      d_currency = Some (currency debt_trans), d_debtor_name = None, d_return_date = None\<rparr>"

text \<open>
  The branch \<^verbatim>\<open>debt_paid_<id>\<close> of \<^verbatim>\<open>button_handler\<close>, for a registered user (the handler
  returns before it for anyone else). It commits twice, on two connections: first
  \<^verbatim>\<open>add_multiple_transactions\<close> commits the repayment, then the \<^verbatim>\<open>UPDATE\<close> of
  \<^verbatim>\<open>debt_status\<close> is committed. The result is the pair of the two committed databases, in
  that order; \<open>NotCompleted\<close> when the row is not found among the user's rows that are not
  deleted, or its \<^verbatim>\<open>debt_status\<close> is not 'open'; the error of
  \<^verbatim>\<open>add_multiple_transactions\<close> when it raises.
\<close>

definition button_handler_debt_paid ::
  "(int \<Rightarrow> string) \<Rightarrow> ('a::{zero,plus,minus}) database \<Rightarrow> int \<Rightarrow> int \<Rightarrow>
   error + 'a database \<times> 'a database" where
  "button_handler_debt_paid clock db uid transaction_id =
     (case find (\<lambda>r. row_id r = transaction_id \<and> user_id r = uid \<and> \<not> is_deleted r)
             (transactions db) of
        None \<Rightarrow> Inl NotCompleted
      | Some debt_trans \<Rightarrow>
          if debt_status debt_trans = ''open'' then
            (case add_multiple_transactions clock db uid [repayment_draft debt_trans] of
               Inl e \<Rightarrow> Inl e
             | Inr (db1, _, _) \<Rightarrow> Inr (db1, set_debt_paid transaction_id db1))
          else Inl NotCompleted)"

text \<open>
  The query of \<^verbatim>\<open>check_due_debts\<close>: \<^verbatim>\<open>SELECT id, user_id, debtor_name, amount, currency ...
  WHERE category = 'Debt' AND return_date <= ? AND notified = 0 AND is_deleted = 0 AND
  debt_status = 'open'\<close>. A \<^verbatim>\<open>NULL\<close> \<^verbatim>\<open>return_date\<close> compares as unknown, so the row is
  left out.
\<close>

definition is_due :: "string \<Rightarrow> 'a transaction \<Rightarrow> bool" where
  "is_due today_str r =
     (category r = ''Debt'' \<and>
      (case return_date r of None \<Rightarrow> False | Some d \<Rightarrow> d \<le> today_str) \<and>
      \<not> notified r \<and> \<not> is_deleted r \<and> debt_status r = ''open'')"

definition due_debts ::
  "'a database \<Rightarrow> string \<Rightarrow> (int \<times> int \<times> string option \<times> 'a \<times> string) list" where
  "due_debts db today_str =
     map (\<lambda>r. (row_id r, user_id r, debtor_name r, amount r, currency r))
       (filter (is_due today_str) (transactions db))"

text \<open>\<^verbatim>\<open>UPDATE transactions SET notified = 1 WHERE id = ?\<close>\<close>

definition mark_notified :: "int \<Rightarrow> 'a database \<Rightarrow> 'a database" where
  "mark_notified debt_id db =
     db\<lparr>transactions :=
          map (\<lambda>r. if row_id r = debt_id then r\<lparr>notified := True\<rparr> else r) (transactions db)\<rparr>"

text \<open>
  The loop of \<^verbatim>\<open>check_due_debts\<close> over the fetched rows. \<open>delivered debt_id\<close> says whether
  \<^verbatim>\<open>send_message\<close> returned for that reminder; \<^verbatim>\<open>escape_markdown(debtor)\<close> raises on a
  \<^verbatim>\<open>NULL\<close> debtor before anything is sent. Either exception is caught and logged, and the
  row is not marked.
\<close>

fun notify_loop ::
  "(int \<Rightarrow> bool) \<Rightarrow> (int \<times> int \<times> string option \<times> 'a \<times> string) list \<Rightarrow> 'a database \<Rightarrow>
   'a database" where
  "notify_loop delivered [] db = db"
| "notify_loop delivered ((debt_id, uid, debtor, amnt, cur) # rest) db =
     (if debtor \<noteq> None \<and> delivered debt_id
      then notify_loop delivered rest (mark_notified debt_id db)
      else notify_loop delivered rest db)"

definition check_due_debts :: "(int \<Rightarrow> bool) \<Rightarrow> string \<Rightarrow> 'a database \<Rightarrow> 'a database" where
  "check_due_debts delivered today_str db = notify_loop delivered (due_debts db today_str) db"

section \<open>Sequences of operations\<close>

text \<open>
  The operations that write the table, as requests: a batch of candidates, the undo
  button, the button that marks a debt paid, and a run of the hourly job. A request that
  fails leaves the database as it was.
\<close>

datatype 'a request =
    AppendBatch int "'a draft list"
  | SoftDelete int int
  | DebtPaid int int
  | CheckDue "int \<Rightarrow> bool" string

fun exec :: "(int \<Rightarrow> string) \<Rightarrow> ('a::{zero,plus,minus}) database \<Rightarrow> 'a request \<Rightarrow> 'a database" where
  "exec clock db (AppendBatch uid ts) =
     (case add_multiple_transactions clock db uid ts of
        Inl e \<Rightarrow> db | Inr (db', _, _) \<Rightarrow> db')"
| "exec clock db (SoftDelete uid tid) =
     (case delete_transaction_and_recalculate db uid tid of Inl e \<Rightarrow> db | Inr db' \<Rightarrow> db')"
| "exec clock db (DebtPaid uid tid) =
     (case button_handler_debt_paid clock db uid tid of Inl e \<Rightarrow> db | Inr (_, db') \<Rightarrow> db')"
| "exec clock db (CheckDue delivered today_str) = check_due_debts delivered today_str db"

definition exec_all ::
  "(int \<Rightarrow> string) \<Rightarrow> ('a::{zero,plus,minus}) database \<Rightarrow> 'a request list \<Rightarrow> 'a database" where
  "exec_all clock db reqs = foldl (exec clock) db reqs"

section \<open>The balance invariant\<close>

text \<open>
  The rows of one user and one currency that are not deleted, and that stream
  \<^verbatim>\<open>ORDER BY id\<close>.
\<close>

definition in_stream :: "int \<Rightarrow> string \<Rightarrow> 'a transaction \<Rightarrow> bool" where
  "in_stream uid cur r = (user_id r = uid \<and> currency r = cur \<and> \<not> is_deleted r)"

definition stream :: "'a database \<Rightarrow> int \<Rightarrow> string \<Rightarrow> 'a transaction list" where
  "stream db uid cur = order_by_id (filter (in_stream uid cur) (transactions db))"

text \<open>
  The fold of invariant I1 along a stream, from the balance \<open>prev\<close> before its first row:
  an income's balance is the previous balance plus its amount, an expense's balance is the
  previous balance minus its amount, and a row of any other type breaks the fold.
\<close>

fun balance_fold :: "('a::{plus,minus}) \<Rightarrow> 'a transaction list \<Rightarrow> bool" where
  "balance_fold prev [] = True"
| "balance_fold prev (r # rs) =
     ((str_lower (trans_type r) = ''income'' \<and> balance r = prev + amount r \<or>
       str_lower (trans_type r) = ''expense'' \<and> balance r = prev - amount r) \<and>
      balance_fold (balance r) rs)"

text \<open>The balance after the last row of a stream; \<open>prev\<close> for an empty one.\<close>

definition last_balance :: "'a \<Rightarrow> 'a transaction list \<Rightarrow> 'a" where
  "last_balance prev rs = (if rs = [] then prev else balance (last rs))"

text \<open>
  The constraints the table keeps: \<^verbatim>\<open>id\<close> is the primary key, the rows stand in ascending
  \<^verbatim>\<open>id\<close>, and \<^verbatim>\<open>sqlite_sequence\<close> is no smaller than any \<^verbatim>\<open>id\<close>.
\<close>

definition wf_db :: "'a database \<Rightarrow> bool" where
  "wf_db db =
     (sorted_wrt (<) (map row_id (transactions db)) \<and>
      list_all (\<lambda>r. row_id r \<le> sqlite_sequence db) (transactions db))"

text \<open>
  One pass over rows in table order that recalculates the balances of the rows
  satisfying \<open>P\<close>, as the loop of \<^verbatim>\<open>delete_transaction_and_recalculate\<close> does row by row.
\<close>

fun refold ::
  "('a transaction \<Rightarrow> bool) \<Rightarrow> ('a::{plus,minus}) \<Rightarrow> 'a transaction list \<Rightarrow> 'a transaction list" where
  "refold P cur [] = []"
| "refold P cur (r # rs) =
     (if P r then
        (let cur' = (if str_lower (trans_type r) = ''expense'' then cur - amount r
                     else cur + amount r)
         in r\<lparr>balance := cur'\<rparr> # refold P cur' rs)
      else r # refold P cur rs)"

text \<open>Invariant I1 for every user and currency, on the table in its stored order.\<close>

definition fold_inv :: "('a::{zero,plus,minus}) database \<Rightarrow> bool" where
  "fold_inv db = (\<forall>uid cur. balance_fold 0 (filter (in_stream uid cur) (transactions db)))"

text \<open>
  The dictionary \<^verbatim>\<open>balances\<close> during a batch of user \<open>uid\<close>: each entry is the balance after
  the last row of its currency's stream.
\<close>

definition balances_inv ::
  "int \<Rightarrow> ('a::zero) database \<Rightarrow> (string \<times> 'a) list \<Rightarrow> bool" where
  "balances_inv uid db balances =
     (\<forall>cur b. map_of balances cur = Some b \<longrightarrow>
        b = last_balance 0 (filter (in_stream uid cur) (transactions db)))"

section \<open>The log of assigned ids\<close>

text \<open>
  The ids a request hands back to its caller: the list \<^verbatim>\<open>new_transaction_ids\<close> that
  \<^verbatim>\<open>add_multiple_transactions\<close> returns for a batch; nothing for a batch that raised and
  for the other requests. \<open>id_log\<close> collects them along a sequence of requests, in the
  order of assignment.
\<close>

fun returned_ids ::
  "(int \<Rightarrow> string) \<Rightarrow> ('a::{zero,plus,minus}) database \<Rightarrow> 'a request \<Rightarrow> int list" where
  "returned_ids clock db (AppendBatch uid ts) =
     (case add_multiple_transactions clock db uid ts of
        Inl e \<Rightarrow> [] | Inr (_, _, new_transaction_ids) \<Rightarrow> new_transaction_ids)"
| "returned_ids clock db (SoftDelete uid tid) = []"
| "returned_ids clock db (DebtPaid uid tid) = []"
| "returned_ids clock db (CheckDue delivered today_str) = []"

fun id_log ::
  "(int \<Rightarrow> string) \<Rightarrow> ('a::{zero,plus,minus}) database \<Rightarrow> 'a request list \<Rightarrow> int list" where
  "id_log clock db [] = []"
| "id_log clock db (req # reqs) =
     returned_ids clock db req @ id_log clock (exec clock db req) reqs"

section \<open>Running balances of a batch\<close>

text \<open>
  The balances a list of candidates of one currency takes a balance through, one after
  the other: an expense (lower-cased type) is subtracted, anything else is added.
\<close>

fun running_balances :: "('a::{plus,minus}) \<Rightarrow> 'a draft list \<Rightarrow> 'a list" where
  "running_balances b [] = []"
| "running_balances b (t # ts) =
     (let b' = (if str_lower (d_type t) = ''expense'' then b - d_amount t else b + d_amount t)
      in b' # running_balances b' ts)"

text \<open>The candidates of a batch that get a row in currency \<open>cur\<close>.\<close>

definition drafts_in :: "string \<Rightarrow> 'a draft list \<Rightarrow> 'a draft list" where
  "drafts_in cur ts =
     filter (\<lambda>t. (str_lower (d_type t) = ''expense'' \<or> str_lower (d_type t) = ''income'') \<and>
                  draft_currency t = cur) ts"

section \<open>The reminder flag\<close>

text \<open>The table has a row with id \<open>i\<close>, and every row with that id is marked notified.\<close>

definition notified_inv :: "int \<Rightarrow> 'a database \<Rightarrow> bool" where
  "notified_inv i db =
     ((\<exists>r\<in>set (transactions db). row_id r = i) \<and>
      (\<forall>r\<in>set (transactions db). row_id r = i \<longrightarrow> notified r))"

text \<open>Every row is in one of the two currencies of the dictionary \<^verbatim>\<open>balances\<close>.\<close>

definition currency_inv :: "'a database \<Rightarrow> bool" where
  "currency_inv db = list_all (\<lambda>r. currency r = ''UZS'' \<or> currency r = ''USD'') (transactions db)"

section \<open>Dates as text\<close>

text \<open>
  \<^verbatim>\<open>strftime('%Y-%m-%d')\<close> of a date: the year in four digits, the month and the day in
  two, zero-padded. \<^verbatim>\<open>check_due_debts\<close> formats today's date so, and the extraction prompt
  asks for \<^verbatim>\<open>return_date\<close> in the same form.
\<close>

definition digit_char :: "nat \<Rightarrow> char" where
  "digit_char n = char_of (48 + n)"

definition pad2 :: "nat \<Rightarrow> string" where
  "pad2 n = [digit_char (n div 10 mod 10), digit_char (n mod 10)]"

definition pad4 :: "nat \<Rightarrow> string" where
  "pad4 n = pad2 (n div 100) @ pad2 (n mod 100)"

definition strftime_ymd :: "nat \<Rightarrow> nat \<Rightarrow> nat \<Rightarrow> string" where
  "strftime_ymd y m d = pad4 y @ ''-'' @ pad2 m @ ''-'' @ pad2 d"

text \<open>
  The candidates of a batch that the loop does not skip: those whose lower-cased type is
  'expense' or 'income'.
\<close>

definition kept_drafts :: "'a draft list \<Rightarrow> 'a draft list" where
  "kept_drafts ts =
     filter (\<lambda>t. str_lower (d_type t) = ''expense'' \<or> str_lower (d_type t) = ''income'') ts"

section \<open>A concrete ledger\<close>

text \<open>
  Three candidates of one user in one currency, the clock of the examples, and requests
  on them: the batch, then the deletion of the second row.
\<close>

definition tx_A :: "real draft" where
  "tx_A = \<lparr>d_type = ''income'', d_amount = 100, d_category = ''Salary'', d_description = ''A'',
           d_currency = Some ''UZS'', d_debtor_name = None, d_return_date = None\<rparr>"

definition tx_B :: "real draft" where
  "tx_B = \<lparr>d_type = ''expense'', d_amount = 30, d_category = ''Food'', d_description = ''B'',
           d_currency = Some ''UZS'', d_debtor_name = None, d_return_date = None\<rparr>"

definition tx_C :: "real draft" where
  "tx_C = \<lparr>d_type = ''income'', d_amount = 50, d_category = ''Gift'', d_description = ''C'',
           d_currency = Some ''UZS'', d_debtor_name = None, d_return_date = None\<rparr>"

definition ex_clock :: "int \<Rightarrow> string" where
  "ex_clock i = ''2025-09-01T00:00:00+00:00''"

definition ex_requests :: "real request list" where
  "ex_requests = [AppendBatch 7 [tx_A, tx_B, tx_C], SoftDelete 7 2]"

text \<open>The batch, the deletion of its last row, and one more candidate.\<close>

definition ex_requests_reinsert :: "real request list" where
  "ex_requests_reinsert = [AppendBatch 7 [tx_A, tx_B, tx_C], SoftDelete 7 3, AppendBatch 7 [tx_A]]"

text \<open>
  A candidate in a currency the ledger does not keep, one with a negative amount, and one
  of an unknown type.
\<close>

definition tx_EUR :: "real draft" where
  "tx_EUR = \<lparr>d_type = ''income'', d_amount = 5, d_category = ''Gift'', d_description = ''E'',
             d_currency = Some ''eur'', d_debtor_name = None, d_return_date = None\<rparr>"

definition tx_neg :: "real draft" where
  "tx_neg = \<lparr>d_type = ''income'', d_amount = - 5, d_category = ''Other'', d_description = ''N'',
             d_currency = Some ''UZS'', d_debtor_name = None, d_return_date = None\<rparr>"

definition tx_transfer :: "real draft" where
  "tx_transfer = \<lparr>d_type = ''transfer'', d_amount = 5, d_category = ''Other'',
                  d_description = ''T'', d_currency = Some ''UZS'', d_debtor_name = None,
                  d_return_date = None\<rparr>"

text \<open>The table after the batch of \<open>tx_A\<close>, \<open>tx_B\<close> and \<open>tx_C\<close> of user 7, and its rows.\<close>

definition ex_store :: "real database" where
  "ex_store = exec ex_clock init_db (AppendBatch 7 [tx_A, tx_B, tx_C])"

definition row_A :: "real transaction" where
  "row_A = new_row ex_clock 1 7 tx_A ''UZS'' 100"

definition row_B :: "real transaction" where
  "row_B = new_row ex_clock 2 7 tx_B ''UZS'' 70"

definition row_C :: "real transaction" where
  "row_C = new_row ex_clock 3 7 tx_C ''UZS'' 120"

text \<open>
  A table with both currencies: a dollar expense between \<open>tx_A\<close> and \<open>tx_B\<close>; then one more
  candidate in the first currency, or the deletion of \<open>tx_B\<close>'s row.
\<close>

definition tx_USD :: "real draft" where
  "tx_USD = \<lparr>d_type = ''expense'', d_amount = 20, d_category = ''Shopping'',
             d_description = ''D'', d_currency = Some ''USD'', d_debtor_name = None,
             d_return_date = None\<rparr>"

definition ex_store_two :: "real database" where
  "ex_store_two = exec ex_clock init_db (AppendBatch 7 [tx_A, tx_USD, tx_B, tx_C])"

definition ex_store_two_add :: "real database" where
  "ex_store_two_add = exec ex_clock ex_store_two (AppendBatch 7 [tx_B])"

definition ex_store_two_del :: "real database" where
  "ex_store_two_del = exec ex_clock ex_store_two (SoftDelete 7 3)"

text \<open>
  A loan of 10000 to Aziz, due on 25 September 2025, and the table that holds it as row 1
  before a row of \<open>tx_B\<close>; requests that follow a reminder.
\<close>

definition tx_debt :: "real draft" where
  "tx_debt = \<lparr>d_type = ''expense'', d_amount = 10000, d_category = ''Debt'',
              d_description = ''lent'', d_currency = Some ''UZS'', d_debtor_name = Some ''Aziz'',
              d_return_date = Some ''2025-09-25''\<rparr>"

definition ex_debt_store :: "real database" where
  "ex_debt_store = exec ex_clock init_db (AppendBatch 7 [tx_debt, tx_B])"

definition ex_requests_after :: "real request list" where
  "ex_requests_after = [AppendBatch 7 [tx_B], CheckDue (\<lambda>i. True) ''2025-10-02'']"

section \<open>Auxiliary facts\<close>

subsection \<open>Row ids and the constraints of the table\<close>

text \<open>
  A new id is above every id of the table and above the counter; on a table in
  ascending id order the \<^verbatim>\<open>ORDER BY\<close> of a query is the table's own order.
\<close>

lemma fold_max_ge_init: "(a::int) \<le> fold max xs a"
  by (induction xs arbitrary: a) (auto intro: order_trans [OF max.cobounded2])

lemma fold_max_ge_elem: "x \<in> set xs \<Longrightarrow> (x::int) \<le> fold max xs a"
proof (induction xs arbitrary: a)
  case Nil
  then show ?case by simp
next
  case (Cons y ys)
  show ?case
  proof (cases "x = y")
    case True
    have "max y a \<le> fold max ys (max y a)" by (rule fold_max_ge_init)
    with True show ?thesis by simp
  next
    case False
    with Cons show ?thesis by simp
  qed
qed

lemma fold_max_absorb: "(\<forall>x\<in>set xs. x \<le> (a::int)) \<Longrightarrow> fold max xs a = a"
  by (induction xs) (simp_all add: max_absorb2)

lemma next_rowid_gt_rows: "r \<in> set (transactions db) \<Longrightarrow> row_id r < next_rowid db"
  using fold_max_ge_elem [of "row_id r" "map row_id (transactions db)" "sqlite_sequence db"]
  by (simp add: next_rowid_def)

lemma next_rowid_gt_seq: "sqlite_sequence db < next_rowid db"
  using fold_max_ge_init [of "sqlite_sequence db" "map row_id (transactions db)"]
  by (simp add: next_rowid_def)

lemma next_rowid_insert_row:
  "next_rowid (insert_row clock db uid t cur bal) = next_rowid db + 1"
proof -
  define n where "n = next_rowid db"
  define r where "r = new_row clock n uid t cur bal"
  have "\<forall>x\<in>set (map row_id (transactions db)). x \<le> n"
    using next_rowid_gt_rows [of _ db] by (auto simp: n_def intro: less_imp_le)
  then have a: "fold max (map row_id (transactions db)) n = n"
    by (rule fold_max_absorb)
  have "next_rowid \<lparr>transactions = transactions db @ [r], sqlite_sequence = n\<rparr> =
        fold max (map row_id (transactions db) @ [row_id r]) n + 1"
    by (simp add: next_rowid_def)
  also have "\<dots> = n + 1" by (simp add: a r_def new_row_def)
  finally show ?thesis by (simp add: insert_row_def n_def r_def)
qed

lemma sort_key_filter_sorted:
  assumes "sorted_wrt (<) (map row_id rs)"
  shows "sort_key row_id (filter P rs) = filter P rs"
proof -
  from assms have "sorted (map row_id rs)" by (simp add: strict_sorted_iff)
  then have "sorted (map row_id (filter P rs))" by (rule sorted_filter)
  then show ?thesis by (rule sort_key_id_if_sorted)
qed

lemma wf_order_by_id:
  "wf_db db \<Longrightarrow> order_by_id (filter P (transactions db)) = filter P (transactions db)"
  by (simp add: wf_db_def order_by_id_def sort_key_filter_sorted)

lemma wf_order_by_id_desc:
  "wf_db db \<Longrightarrow> order_by_id_desc (filter P (transactions db)) = rev (filter P (transactions db))"
  by (simp add: wf_db_def order_by_id_desc_def sort_key_filter_sorted)

lemma stream_wf: "wf_db db \<Longrightarrow> stream db u x = filter (in_stream u x) (transactions db)"
  by (simp add: stream_def wf_order_by_id)

lemma wf_init_db: "wf_db init_db"
  by (simp add: wf_db_def init_db_def)

lemma wf_insert_row: "wf_db db \<Longrightarrow> wf_db (insert_row clock db uid t cur bal)"
  using next_rowid_gt_rows [of _ db]
  by (auto simp: wf_db_def insert_row_def new_row_def sorted_wrt_append list_all_iff
      intro: less_imp_le)

lemma map_fields_wf:
  assumes "\<And>r. row_id (g r) = row_id r" and "wf_db db"
  shows "wf_db (db\<lparr>transactions := map g (transactions db)\<rparr>)"
proof -
  have c: "row_id \<circ> g = row_id" by (rule ext) (simp add: assms(1))
  show ?thesis using assms(2) by (simp add: wf_db_def list_all_iff assms(1) c)
qed

lemma same_id_same_row:
  assumes "distinct (map row_id rs)" and "x \<in> set rs" and "y \<in> set rs" and "row_id x = row_id y"
  shows "x = y"
  using assms by (auto simp: distinct_map dest: inj_onD)

lemma distinct_mid:
  assumes "distinct (map f (pre @ r # ys))"
  shows "\<forall>x\<in>set pre. f x \<noteq> f r" and "\<forall>y\<in>set ys. f y \<noteq> f r"
  using assms by (auto simp: image_iff)

lemma set_order_by_id_desc: "set (order_by_id_desc rs) = set rs"
  by (simp add: order_by_id_desc_def)

lemma last_sorted_max:
  assumes "sorted (map f xs)" and "xs \<noteq> []"
  shows "last xs \<in> set xs \<and> (\<forall>x\<in>set xs. f x \<le> f (last xs))"
proof -
  from assms(2) obtain ys y where xs: "xs = ys @ [y]" by (cases xs rule: rev_cases) auto
  with assms(1) show ?thesis by (auto simp: sorted_append)
qed

lemma find_split:
  "find P rs = Some t \<Longrightarrow> \<exists>xs ys. rs = xs @ t # ys \<and> P t"
proof (induction rs)
  case Nil
  then show ?case by simp
next
  case (Cons r rs)
  show ?case
  proof (cases "P r")
    case True
    with Cons.prems have "r = t" by simp
    with True show ?thesis by (intro exI [of _ "[]"] exI [of _ rs]) simp
  next
    case False
    with Cons obtain xs ys where "rs = xs @ t # ys" "P t" by auto
    then show ?thesis by (intro exI [of _ "r # xs"] exI [of _ ys]) simp
  qed
qed

lemma find_None_iff_all: "(find P rs = None) = (\<forall>r\<in>set rs. \<not> P r)"
  by (induction rs) auto

lemma find_Some_mem: "find P rs = Some r \<Longrightarrow> r \<in> set rs \<and> P r"
  using find_split [of P rs r] by auto

lemma map_memI: "x \<in> set xs \<Longrightarrow> g x \<in> set (map g xs)"
  by simp

subsection \<open>Streams and the balance fold\<close>

lemma last_balance_rev: "(case rev rs of [] \<Rightarrow> p | r # _ \<Rightarrow> balance r) = last_balance p rs"
  by (cases rs rule: rev_cases) (simp_all add: last_balance_def)

lemma get_last_balance_wf:
  "wf_db db \<Longrightarrow>
   get_last_balance db uid cur =
   last_balance 0 (filter (in_stream uid (str_upper cur)) (transactions db))"
  unfolding get_last_balance_def
  by (simp add: wf_order_by_id_desc last_balance_rev in_stream_def [abs_def])

lemma balance_fold_append:
  "balance_fold p (xs @ ys) = (balance_fold p xs \<and> balance_fold (last_balance p xs) ys)"
  by (induction xs arbitrary: p) (auto simp: last_balance_def)

lemma balance_fold_map:
  assumes "\<And>r. trans_type (g r) = trans_type r \<and> amount (g r) = amount r \<and> balance (g r) = balance r"
  shows "balance_fold p (map g rs) = balance_fold p rs"
  by (induction rs arbitrary: p) (simp_all add: assms)

lemma in_stream_new_row:
  "in_stream u c (new_row clock i uid t cur bal) = (u = uid \<and> c = cur)"
  by (auto simp: in_stream_def new_row_def)

lemma stream_insert_row:
  "filter (in_stream u c) (transactions (insert_row clock db uid t cur bal)) =
   filter (in_stream u c) (transactions db) @
   (if u = uid \<and> c = cur then [new_row clock (next_rowid db) uid t cur bal] else [])"
  by (simp add: insert_row_def in_stream_new_row)

lemma in_stream_balance_update [simp]:
  "in_stream u c (r\<lparr>balance := b\<rparr>) = in_stream u c r"
  by (simp add: in_stream_def)

lemma str_upper_UZS: "str_upper ''UZS'' = ''UZS''"
  by (simp add: str_upper_def upper_char_def)

lemma str_upper_USD: "str_upper ''USD'' = ''USD''"
  by (simp add: str_upper_def upper_char_def)

lemma fold_inv_init_db: "fold_inv init_db"
  by (simp add: fold_inv_def init_db_def)

subsection \<open>The loop of a batch\<close>

text \<open>
  One turn of the loop on a candidate of a known type and currency; the invariant of the
  loop; the rows, ids and balances a batch leaves.
\<close>

lemma dom_update_present:
  "map_of balances cur = Some b \<Longrightarrow> dom (map_of (AList.update cur v balances)) = dom (map_of balances)"
  by (auto simp: update_conv')

lemma add_loop_valid_step:
  assumes "str_lower (d_type t) = ''income'' \<or> str_lower (d_type t) = ''expense''"
    and "map_of balances (draft_currency t) = Some b"
    and "nb = (if str_lower (d_type t) = ''expense'' then b - d_amount t else b + d_amount t)"
  shows "add_loop clock uid (t # ts) (db, balances, ids) =
         add_loop clock uid ts
           (insert_row clock db uid t (draft_currency t) nb,
            AList.update (draft_currency t) nb balances, ids @ [next_rowid db])"
  using assms by (auto simp: Let_def)

lemma insert_row_balances_inv:
  assumes bi: "balances_inv uid db balances"
    and look: "map_of balances cur = Some b"
  shows "balances_inv uid (insert_row clock db uid t cur nb) (AList.update cur nb balances)"
  unfolding balances_inv_def
proof (intro allI impI)
  fix c v
  assume "map_of (AList.update cur nb balances) c = Some v"
  then consider (same) "c = cur" "v = nb" | (other) "c \<noteq> cur" "map_of balances c = Some v"
    by (auto simp: update_Some_unfold)
  then show "v = last_balance 0 (filter (in_stream uid c) (transactions (insert_row clock db uid t cur nb)))"
  proof cases
    case same
    then show ?thesis by (simp add: stream_insert_row last_balance_def new_row_def)
  next
    case other
    from bi other(2) have "v = last_balance 0 (filter (in_stream uid c) (transactions db))"
      by (simp add: balances_inv_def)
    with other(1) show ?thesis by (simp add: stream_insert_row)
  qed
qed

lemma insert_row_inv:
  assumes wf: "wf_db db" and fi: "fold_inv db" and bi: "balances_inv uid db balances"
    and look: "map_of balances cur = Some b"
    and step: "str_lower (d_type t) = ''expense'' \<and> nb = b - d_amount t \<or>
               str_lower (d_type t) = ''income'' \<and> nb = b + d_amount t"
  shows "wf_db (insert_row clock db uid t cur nb) \<and>
         fold_inv (insert_row clock db uid t cur nb) \<and>
         balances_inv uid (insert_row clock db uid t cur nb) (AList.update cur nb balances)"
proof (intro conjI)
  show "wf_db (insert_row clock db uid t cur nb)" using wf by (rule wf_insert_row)
next
  from bi look have b: "b = last_balance 0 (filter (in_stream uid cur) (transactions db))"
    by (simp add: balances_inv_def)
  show "fold_inv (insert_row clock db uid t cur nb)"
    unfolding fold_inv_def
  proof (intro allI)
    fix u c
    from fi have "balance_fold 0 (filter (in_stream u c) (transactions db))"
      by (simp add: fold_inv_def)
    then show "balance_fold 0 (filter (in_stream u c) (transactions (insert_row clock db uid t cur nb)))"
      using step b by (auto simp: stream_insert_row balance_fold_append new_row_def)
  qed
next
  show "balances_inv uid (insert_row clock db uid t cur nb) (AList.update cur nb balances)"
    unfolding balances_inv_def
  proof (intro allI impI)
    fix c v
    assume "map_of (AList.update cur nb balances) c = Some v"
    then consider (same) "c = cur" "v = nb" | (other) "c \<noteq> cur" "map_of balances c = Some v"
      by (auto simp: update_Some_unfold)
    then show "v = last_balance 0 (filter (in_stream uid c) (transactions (insert_row clock db uid t cur nb)))"
    proof cases
      case same
      then show ?thesis by (simp add: stream_insert_row last_balance_def new_row_def)
    next
      case other
      from bi other(2) have "v = last_balance 0 (filter (in_stream uid c) (transactions db))"
        by (simp add: balances_inv_def)
      with other(1) show ?thesis by (simp add: stream_insert_row)
    qed
  qed
qed

lemma add_loop_inv:
  assumes "add_loop clock uid ts (db, balances, ids) = Inr (db', balances', ids')"
    and "wf_db db" and "fold_inv db" and "balances_inv uid db balances"
  shows "wf_db db' \<and> fold_inv db' \<and> balances_inv uid db' balances'"
  using assms
proof (induction ts arbitrary: db balances ids)
  case Nil
  then show ?case by simp
next
  case (Cons t ts)
  show ?case
  proof (cases "str_lower (d_type t) = ''expense'' \<or> str_lower (d_type t) = ''income''")
    case False
    with Cons.prems(1) have "add_loop clock uid ts (db, balances, ids) = Inr (db', balances', ids')"
      by (simp add: Let_def)
    then show ?thesis using Cons.prems(2-4) by (rule Cons.IH)
  next
    case True
    with Cons.prems(1) obtain b where look: "map_of balances (draft_currency t) = Some b"
      by (auto simp: Let_def split: option.splits if_splits)
    define nb where "nb = (if str_lower (d_type t) = ''expense'' then b - d_amount t else b + d_amount t)"
    have step: "str_lower (d_type t) = ''expense'' \<and> nb = b - d_amount t \<or>
               str_lower (d_type t) = ''income'' \<and> nb = b + d_amount t"
      using True by (auto simp: nb_def)
    have rec: "add_loop clock uid ts
            (insert_row clock db uid t (draft_currency t) nb,
             AList.update (draft_currency t) nb balances, ids @ [next_rowid db]) =
          Inr (db', balances', ids')"
      using Cons.prems(1) True look by (auto simp: Let_def nb_def)
    from insert_row_inv [OF Cons.prems(2-4) look step, of clock]
    show ?thesis using Cons.IH [OF rec] by blast
  qed
qed

lemma balances_inv_seed:
  assumes "wf_db db"
  shows "balances_inv uid db
           [(''UZS'', get_last_balance db uid ''UZS''), (''USD'', get_last_balance db uid ''USD'')]"
  using assms
  by (auto simp: balances_inv_def get_last_balance_wf str_upper_UZS str_upper_USD
      split: if_splits)

lemma add_multiple_transactions_inv:
  assumes "add_multiple_transactions clock db uid ts = Inr (db', balances', ids')"
    and "wf_db db" and "fold_inv db"
  shows "wf_db db' \<and> fold_inv db'"
  using add_loop_inv [OF assms(1) [unfolded add_multiple_transactions_def] assms(2,3)
      balances_inv_seed [OF assms(2)]]
  by simp

lemma add_loop_rows:
  assumes "add_loop clock uid ts (db, balances, ids) = Inr (db', balances', ids')"
  shows "\<exists>new. transactions db' = transactions db @ new \<and> ids' = ids @ map row_id new \<and>
           dom (map_of balances') = dom (map_of balances) \<and>
           list_all (\<lambda>r. user_id r = uid \<and> currency r \<in> dom (map_of balances) \<and>
                         currency r \<in> draft_currency ` set ts) new"
  using assms
proof (induction ts arbitrary: db balances ids)
  case Nil
  then show ?case by simp
next
  case (Cons t ts)
  show ?case
  proof (cases "str_lower (d_type t) = ''expense'' \<or> str_lower (d_type t) = ''income''")
    case False
    with Cons.prems have "add_loop clock uid ts (db, balances, ids) = Inr (db', balances', ids')"
      by (simp add: Let_def)
    from Cons.IH [OF this] show ?thesis by (auto simp: list_all_iff)
  next
    case True
    with Cons.prems obtain b where look: "map_of balances (draft_currency t) = Some b"
      by (auto simp: Let_def split: option.splits if_splits)
    define nb where
      "nb = (if str_lower (d_type t) = ''expense'' then b - d_amount t else b + d_amount t)"
    define nr where "nr = new_row clock (next_rowid db) uid t (draft_currency t) nb"
    have rec: "add_loop clock uid ts
            (insert_row clock db uid t (draft_currency t) nb,
             AList.update (draft_currency t) nb balances, ids @ [next_rowid db]) =
          Inr (db', balances', ids')"
      using Cons.prems True look by (auto simp: Let_def nb_def)
    from Cons.IH [OF rec] obtain new where
      n: "transactions db' = transactions (insert_row clock db uid t (draft_currency t) nb) @ new"
        "ids' = (ids @ [next_rowid db]) @ map row_id new"
        "dom (map_of balances') = dom (map_of (AList.update (draft_currency t) nb balances))"
        "list_all (\<lambda>r. user_id r = uid \<and>
             currency r \<in> dom (map_of (AList.update (draft_currency t) nb balances)) \<and>
             currency r \<in> draft_currency ` set ts) new"
      by blast
    have d: "dom (map_of (AList.update (draft_currency t) nb balances)) = dom (map_of balances)"
      using look by (rule dom_update_present)
    have "transactions db' = transactions db @ (nr # new)"
      using n(1) by (simp add: insert_row_def nr_def)
    moreover have "ids' = ids @ map row_id (nr # new)"
      using n(2) by (simp add: nr_def new_row_def)
    moreover have "dom (map_of balances') = dom (map_of balances)"
      using n(3) d by simp
    moreover have "list_all (\<lambda>r. user_id r = uid \<and> currency r \<in> dom (map_of balances) \<and>
                         currency r \<in> draft_currency ` set (t # ts)) (nr # new)"
      using n(4) look by (auto simp: d list_all_iff nr_def new_row_def)
    ultimately show ?thesis by blast
  qed
qed

lemma add_multiple_transactions_rows:
  assumes "add_multiple_transactions clock db uid ts = Inr (db', balances', ids')"
  shows "\<exists>new. transactions db' = transactions db @ new \<and> ids' = map row_id new \<and>
           list_all (\<lambda>r. user_id r = uid \<and> currency r \<in> {''UZS'', ''USD''} \<and>
                         currency r \<in> draft_currency ` set ts) new"
  using add_loop_rows [OF assms [unfolded add_multiple_transactions_def]]
  by (auto simp: list_all_iff)

lemma add_loop_wf:
  "add_loop clock uid ts (db, balances, ids) = Inr (db', balances', ids') \<Longrightarrow> wf_db db \<Longrightarrow>
   wf_db db'"
proof (induction ts arbitrary: db balances ids)
  case Nil
  then show ?case by simp
next
  case (Cons t ts)
  then show ?case
    by (auto simp: Let_def wf_insert_row split: if_splits option.splits)
qed

lemma add_multiple_transactions_wf:
  assumes "add_multiple_transactions clock db uid ts = Inr (db', balances', ids')"
    and "wf_db db"
  shows "wf_db db'"
  using add_loop_wf [OF assms(1) [unfolded add_multiple_transactions_def] assms(2)] .

lemma add_loop_KeyError:
  assumes "t \<in> set ts"
    and "str_lower (d_type t) = ''expense'' \<or> str_lower (d_type t) = ''income''"
    and "draft_currency t \<notin> dom (map_of balances)"
  shows "\<exists>c. add_loop clock uid ts (db, balances, ids) = Inl (KeyError c)"
  using assms(1,3)
proof (induction ts arbitrary: db balances ids)
  case Nil
  then show ?case by simp
next
  case (Cons x xs)
  show ?case
  proof (cases "str_lower (d_type x) = ''expense'' \<or> str_lower (d_type x) = ''income''")
    case False
    with Cons.prems assms(2) have "t \<in> set xs" by auto
    from Cons.IH [OF this Cons.prems(2)] False show ?thesis by (simp add: Let_def)
  next
    case True
    show ?thesis
    proof (cases "map_of balances (draft_currency x)")
      case None
      with True show ?thesis by (auto simp: Let_def)
    next
      case (Some b)
      with Cons.prems have tx: "t \<in> set xs" by auto
      have d: "\<And>v. draft_currency t \<notin> dom (map_of (AList.update (draft_currency x) v balances))"
        using Cons.prems(2) dom_update_present [OF Some] by simp
      from True Some Cons.IH [OF tx d] show ?thesis by (auto simp: Let_def)
    qed
  qed
qed

lemma add_loop_commits_kept:
  assumes "dom (map_of balances) = {''UZS'', ''USD''}"
    and "\<forall>t\<in>set ts. (str_lower (d_type t) = ''expense'' \<or> str_lower (d_type t) = ''income'') \<longrightarrow>
           (draft_currency t = ''UZS'' \<or> draft_currency t = ''USD'')"
  shows "\<exists>db' balances' new. add_loop clock uid ts (db, balances, ids) =
             Inr (db', balances', ids @ map row_id new) \<and>
           transactions db' = transactions db @ new \<and>
           map row_id new = map (\<lambda>i. next_rowid db + int i) [0..<length new] \<and>
           map (\<lambda>r. (user_id r, trans_type r, category r, amount r, currency r)) new =
             map (\<lambda>t. (uid, d_type t, d_category t, d_amount t, draft_currency t))
               (kept_drafts ts)"
  using assms
proof (induction ts arbitrary: db balances ids)
  case Nil
  show ?case by (intro exI [of _ db] exI [of _ balances] exI [of _ "[]"]) (simp add: kept_drafts_def)
next
  case (Cons t ts)
  have rest: "\<forall>t\<in>set ts. (str_lower (d_type t) = ''expense'' \<or> str_lower (d_type t) = ''income'') \<longrightarrow>
           (draft_currency t = ''UZS'' \<or> draft_currency t = ''USD'')"
    using Cons.prems(2) by simp
  show ?case
  proof (cases "str_lower (d_type t) = ''expense'' \<or> str_lower (d_type t) = ''income''")
    case False
    then have s: "add_loop clock uid (t # ts) (db, balances, ids) =
        add_loop clock uid ts (db, balances, ids)"
      by (simp add: Let_def)
    have k: "kept_drafts (t # ts) = kept_drafts ts" using False by (simp add: kept_drafts_def)
    from Cons.IH [OF Cons.prems(1) rest, of db ids] show ?thesis by (simp only: s k)
  next
    case True
    then have kind: "str_lower (d_type t) = ''income'' \<or> str_lower (d_type t) = ''expense''"
      by blast
    from True Cons.prems(2) have "draft_currency t = ''UZS'' \<or> draft_currency t = ''USD''"
      by auto
    with Cons.prems(1) obtain b where look: "map_of balances (draft_currency t) = Some b"
      by blast
    define nb where
      "nb = (if str_lower (d_type t) = ''expense'' then b - d_amount t else b + d_amount t)"
    define db1 where "db1 = insert_row clock db uid t (draft_currency t) nb"
    define nr where "nr = new_row clock (next_rowid db) uid t (draft_currency t) nb"
    define bals1 where "bals1 = AList.update (draft_currency t) nb balances"
    have s: "add_loop clock uid (t # ts) (db, balances, ids) =
        add_loop clock uid ts (db1, bals1, ids @ [next_rowid db])"
      unfolding db1_def bals1_def using kind look nb_def by (rule add_loop_valid_step)
    have d1: "dom (map_of bals1) = {''UZS'', ''USD''}"
      using dom_update_present [OF look] Cons.prems(1) by (simp add: bals1_def)
    have n1: "next_rowid db1 = next_rowid db + 1"
      by (simp add: db1_def next_rowid_insert_row)
    have r1: "transactions db1 = transactions db @ [nr]"
      by (simp add: db1_def insert_row_def nr_def)
    from Cons.IH [OF d1 rest, of db1 "ids @ [next_rowid db]"] obtain db' balances' new where
      a: "add_loop clock uid ts (db1, bals1, ids @ [next_rowid db]) =
            Inr (db', balances', (ids @ [next_rowid db]) @ map row_id new)"
      and b: "transactions db' = transactions db1 @ new"
      and c: "map row_id new = map (\<lambda>i. next_rowid db1 + int i) [0..<length new]"
      and d: "map (\<lambda>r. (user_id r, trans_type r, category r, amount r, currency r)) new =
             map (\<lambda>t. (uid, d_type t, d_category t, d_amount t, draft_currency t))
               (kept_drafts ts)"
      by blast
    have k: "kept_drafts (t # ts) = t # kept_drafts ts" using True by (simp add: kept_drafts_def)
    have a': "add_loop clock uid (t # ts) (db, balances, ids) =
        Inr (db', balances', ids @ map row_id (nr # new))"
      using s a by (simp add: nr_def new_row_def)
    have b': "transactions db' = transactions db @ (nr # new)"
      using b r1 by simp
    have "map (\<lambda>i. next_rowid db + int i) [0..<Suc (length new)] =
        next_rowid db # map (\<lambda>i. next_rowid db + int (Suc i)) [0..<length new]"
      by (simp only: map_upt_Suc) simp
    also have "\<dots> = next_rowid db # map (\<lambda>i. next_rowid db1 + int i) [0..<length new]"
      by (simp add: n1 add.assoc)
    finally have c': "map row_id (nr # new) =
        map (\<lambda>i. next_rowid db + int i) [0..<length (nr # new)]"
      using c by (simp add: nr_def new_row_def)
    have d': "map (\<lambda>r. (user_id r, trans_type r, category r, amount r, currency r)) (nr # new) =
             map (\<lambda>t. (uid, d_type t, d_category t, d_amount t, draft_currency t))
               (kept_drafts (t # ts))"
      using d by (simp add: k nr_def new_row_def)
    from a' b' c' d' show ?thesis by blast
  qed
qed

lemma add_commits_kept:
  assumes "\<forall>t\<in>set ts. (str_lower (d_type t) = ''expense'' \<or> str_lower (d_type t) = ''income'') \<longrightarrow>
           (draft_currency t = ''UZS'' \<or> draft_currency t = ''USD'')"
  shows "\<exists>db' balances' new. add_multiple_transactions clock db uid ts =
             Inr (db', balances', map row_id new) \<and>
           transactions db' = transactions db @ new \<and>
           map row_id new = map (\<lambda>i. next_rowid db + int i) [0..<length new] \<and>
           map (\<lambda>r. (user_id r, trans_type r, category r, amount r, currency r)) new =
             map (\<lambda>t. (uid, d_type t, d_category t, d_amount t, draft_currency t))
               (kept_drafts ts)"
proof -
  have "dom (map_of [(''UZS'', get_last_balance db uid ''UZS''),
      (''USD'', get_last_balance db uid ''USD'')]) = {''UZS'', ''USD''}"
    by auto
  from add_loop_commits_kept [OF this assms, of clock uid db "[]"] show ?thesis
    by (simp add: add_multiple_transactions_def)
qed

lemma add_one_income:
  assumes ty: "str_lower (d_type t) = ''income''"
    and cur: "draft_currency t = ''UZS'' \<or> draft_currency t = ''USD''"
  shows "\<exists>bals. add_multiple_transactions clock db uid [t] =
           Inr (insert_row clock db uid t (draft_currency t)
                  (get_last_balance db uid (draft_currency t) + d_amount t),
                bals, [next_rowid db])"
proof -
  define bals0 where "bals0 = [(''UZS'', get_last_balance db uid ''UZS''),
    (''USD'', get_last_balance db uid ''USD'')]"
  from cur have l: "map_of bals0 (draft_currency t) = Some (get_last_balance db uid (draft_currency t))"
    by (auto simp: bals0_def)
  have k: "str_lower (d_type t) = ''income'' \<or> str_lower (d_type t) = ''expense''"
    using ty by simp
  have nb: "get_last_balance db uid (draft_currency t) + d_amount t =
      (if str_lower (d_type t) = ''expense''
       then get_last_balance db uid (draft_currency t) - d_amount t
       else get_last_balance db uid (draft_currency t) + d_amount t)"
    using ty by simp
  have "add_loop clock uid [t] (db, bals0, []) =
      add_loop clock uid []
        (insert_row clock db uid t (draft_currency t)
           (get_last_balance db uid (draft_currency t) + d_amount t),
         AList.update (draft_currency t)
           (get_last_balance db uid (draft_currency t) + d_amount t) bals0,
         [] @ [next_rowid db])"
    using k l nb by (rule add_loop_valid_step)
  then show ?thesis by (simp add: add_multiple_transactions_def bals0_def)
qed

lemma add_loop_stream_balances:
  assumes "add_loop clock uid ts (db, balances, ids) = Inr (db', balances', ids')"
    and "balances_inv uid db balances"
  shows "map balance (filter (in_stream u x) (transactions db')) =
         map balance (filter (in_stream u x) (transactions db)) @
         (if u = uid
          then running_balances (last_balance 0 (filter (in_stream uid x) (transactions db)))
                 (drafts_in x ts)
          else [])"
  using assms
proof (induction ts arbitrary: db balances ids)
  case Nil
  then show ?case by (simp add: drafts_in_def)
next
  case (Cons t ts)
  show ?case
  proof (cases "str_lower (d_type t) = ''expense'' \<or> str_lower (d_type t) = ''income''")
    case False
    with Cons.prems have "add_loop clock uid ts (db, balances, ids) = Inr (db', balances', ids')"
      by (simp add: Let_def)
    from Cons.IH [OF this Cons.prems(2)] False show ?thesis by (simp add: drafts_in_def)
  next
    case True
    with Cons.prems obtain b where look: "map_of balances (draft_currency t) = Some b"
      by (auto simp: Let_def split: option.splits if_splits)
    define cur where "cur = draft_currency t"
    define nb where
      "nb = (if str_lower (d_type t) = ''expense'' then b - d_amount t else b + d_amount t)"
    define db1 where "db1 = insert_row clock db uid t cur nb"
    have rec: "add_loop clock uid ts (db1, AList.update cur nb balances, ids @ [next_rowid db]) =
          Inr (db', balances', ids')"
      using Cons.prems(1) True look by (auto simp: Let_def nb_def db1_def cur_def)
    have bi1: "balances_inv uid db1 (AList.update cur nb balances)"
      unfolding db1_def using Cons.prems(2) look [folded cur_def]
      by (rule insert_row_balances_inv)
    note ih = Cons.IH [OF rec bi1]
    from Cons.prems(2) look have b: "b = last_balance 0 (filter (in_stream uid cur) (transactions db))"
      by (simp add: balances_inv_def cur_def)
    have f1: "filter (in_stream u x) (transactions db1) =
        filter (in_stream u x) (transactions db) @
        (if u = uid \<and> x = cur then [new_row clock (next_rowid db) uid t cur nb] else [])"
      by (simp add: db1_def stream_insert_row)
    show ?thesis
    proof (cases "u = uid \<and> x = cur")
      case same: True
      then have u: "u = uid" and x: "x = cur" by simp_all
      have f1': "filter (in_stream uid cur) (transactions db1) =
          filter (in_stream uid cur) (transactions db) @ [new_row clock (next_rowid db) uid t cur nb]"
        by (simp add: db1_def stream_insert_row)
      then have lb: "last_balance 0 (filter (in_stream uid cur) (transactions db1)) = nb"
        by (simp add: last_balance_def new_row_def)
      have dr: "drafts_in cur (t # ts) = t # drafts_in cur ts"
        using True by (simp add: drafts_in_def cur_def)
      have rb: "running_balances (last_balance 0 (filter (in_stream uid cur) (transactions db)))
              (t # drafts_in cur ts) = nb # running_balances nb (drafts_in cur ts)"
        using b by (simp add: Let_def nb_def)
      have "map balance (filter (in_stream uid cur) (transactions db')) =
          map balance (filter (in_stream uid cur) (transactions db1)) @
          running_balances (last_balance 0 (filter (in_stream uid cur) (transactions db1)))
            (drafts_in cur ts)"
        using ih u x by simp
      also have "\<dots> = map balance (filter (in_stream uid cur) (transactions db1)) @
          running_balances nb (drafts_in cur ts)"
        by (simp only: lb)
      also have "map balance (filter (in_stream uid cur) (transactions db1)) =
          map balance (filter (in_stream uid cur) (transactions db)) @ [nb]"
        by (simp add: f1' new_row_def)
      finally have "map balance (filter (in_stream uid cur) (transactions db')) =
          map balance (filter (in_stream uid cur) (transactions db)) @
          nb # running_balances nb (drafts_in cur ts)"
        by simp
      then show ?thesis unfolding u x dr rb by simp
    next
      case other: False
      show ?thesis
      proof (cases "u = uid")
        case True
        with other have "x \<noteq> cur" by simp
        then have dr: "drafts_in x (t # ts) = drafts_in x ts"
          by (auto simp: drafts_in_def cur_def)
        have "filter (in_stream uid x) (transactions db1) = filter (in_stream uid x) (transactions db)"
          using \<open>x \<noteq> cur\<close> by (simp add: db1_def stream_insert_row)
        with ih True show ?thesis by (simp add: dr)
      next
        case False
        with ih show ?thesis by (simp add: f1)
      qed
    qed
  qed
qed

lemma add_stream_balances:
  assumes "add_multiple_transactions clock db uid ts = Inr (db', balances', ids')"
    and wf: "wf_db db"
  shows "map balance (stream db' u x) =
         map balance (stream db u x) @
         (if u = uid then running_balances (last_balance 0 (stream db uid x)) (drafts_in x ts)
          else [])"
  using add_loop_stream_balances [OF assms(1) [unfolded add_multiple_transactions_def]
      balances_inv_seed [OF wf], of u x]
  by (simp add: stream_wf [OF wf] stream_wf [OF add_multiple_transactions_wf [OF assms]])

subsection \<open>Deletion\<close>

text \<open>
  The loop of the deletion updates the table once per later row, by id; on a table with
  distinct ids that is one pass of \<open>refold\<close> over the rows behind the deleted one.
\<close>

lemma map_proj_set_balance:
  assumes "\<And>r b. f (r\<lparr>balance := b\<rparr>) = f r"
  shows "map f (set_balance b i rs) = map f rs"
  by (induction rs) (simp_all add: set_balance_def assms)

lemma map_proj_set_is_deleted:
  assumes "\<And>r. f (r\<lparr>is_deleted := True\<rparr>) = f r"
  shows "map f (set_is_deleted i rs) = map f rs"
  by (induction rs) (simp_all add: set_is_deleted_def assms)

lemma map_proj_recalculate:
  assumes "\<And>r b. f (r\<lparr>balance := b\<rparr>) = f r"
  shows "map f (recalculate cur subs rs) = map f rs"
proof (induction subs arbitrary: cur rs)
  case Nil
  then show ?case by simp
next
  case (Cons s subs)
  obtain i ty a where s: "s = (i, ty, a)" by (cases s)
  show ?case by (simp add: s Let_def Cons.IH map_proj_set_balance [of f, OF assms])
qed

lemma delete_proj:
  assumes "\<And>r b. f (r\<lparr>balance := b\<rparr>) = f r" and "\<And>r. f (r\<lparr>is_deleted := True\<rparr>) = f r"
    and "delete_transaction_and_recalculate db uid tid = Inr db'"
  shows "map f (transactions db') = map f (transactions db)"
  using assms(3)
  by (auto simp: delete_transaction_and_recalculate_def Let_def
      map_proj_recalculate [of f, OF assms(1)] map_proj_set_is_deleted [of f, OF assms(2)]
      split: option.splits)

lemma delete_row_ids:
  assumes "delete_transaction_and_recalculate db uid tid = Inr db'"
  shows "map row_id (transactions db') = map row_id (transactions db)"
  by (rule delete_proj [OF _ _ assms]) simp_all

lemma set_balance_distinct:
  assumes "distinct (map row_id (pre @ r # ys))"
  shows "set_balance b (row_id r) (pre @ r # ys) = pre @ r\<lparr>balance := b\<rparr> # ys"
proof -
  from assms have "\<forall>x\<in>set pre. row_id x \<noteq> row_id r" "\<forall>y\<in>set ys. row_id y \<noteq> row_id r"
    by (rule distinct_mid)+
  then have "map (\<lambda>x. if row_id x = row_id r then x\<lparr>balance := b\<rparr> else x) pre = pre"
    "map (\<lambda>x. if row_id x = row_id r then x\<lparr>balance := b\<rparr> else x) ys = ys"
    by (simp_all add: map_idI)
  then show ?thesis by (simp add: set_balance_def)
qed

lemma set_is_deleted_distinct:
  assumes "distinct (map row_id (pre @ r # ys))"
  shows "set_is_deleted (row_id r) (pre @ r # ys) = pre @ r\<lparr>is_deleted := True\<rparr> # ys"
proof -
  from assms have "\<forall>x\<in>set pre. row_id x \<noteq> row_id r" "\<forall>y\<in>set ys. row_id y \<noteq> row_id r"
    by (rule distinct_mid)+
  then have "map (\<lambda>x. if row_id x = row_id r then x\<lparr>is_deleted := True\<rparr> else x) pre = pre"
    "map (\<lambda>x. if row_id x = row_id r then x\<lparr>is_deleted := True\<rparr> else x) ys = ys"
    by (simp_all add: map_idI)
  then show ?thesis by (simp add: set_is_deleted_def)
qed

lemma recalculate_refold:
  assumes "distinct (map row_id (pre @ ys))"
  shows "recalculate cur (map (\<lambda>r. (row_id r, trans_type r, amount r)) (filter Q ys)) (pre @ ys) =
         pre @ refold Q cur ys"
  using assms
proof (induction ys arbitrary: pre cur)
  case Nil
  then show ?case by simp
next
  case (Cons r ys)
  define cur' where
    "cur' = (if str_lower (trans_type r) = ''expense'' then cur - amount r else cur + amount r)"
  show ?case
  proof (cases "Q r")
    case True
    have d: "distinct (map row_id ((pre @ [r\<lparr>balance := cur'\<rparr>]) @ ys))"
      using Cons.prems by simp
    have "recalculate cur (map (\<lambda>r. (row_id r, trans_type r, amount r)) (filter Q (r # ys)))
            (pre @ r # ys) =
          recalculate cur' (map (\<lambda>r. (row_id r, trans_type r, amount r)) (filter Q ys))
            (set_balance cur' (row_id r) (pre @ r # ys))"
      using True by (simp add: cur'_def Let_def)
    also have "set_balance cur' (row_id r) (pre @ r # ys) = (pre @ [r\<lparr>balance := cur'\<rparr>]) @ ys"
      using set_balance_distinct [OF Cons.prems] by simp
    also have "recalculate cur' (map (\<lambda>r. (row_id r, trans_type r, amount r)) (filter Q ys))
            ((pre @ [r\<lparr>balance := cur'\<rparr>]) @ ys) =
          (pre @ [r\<lparr>balance := cur'\<rparr>]) @ refold Q cur' ys"
      using d by (rule Cons.IH)
    finally show ?thesis using True by (simp add: cur'_def Let_def)
  next
    case False
    have d: "distinct (map row_id ((pre @ [r]) @ ys))" using Cons.prems by simp
    have "recalculate cur (map (\<lambda>r. (row_id r, trans_type r, amount r)) (filter Q ys))
            ((pre @ [r]) @ ys) = (pre @ [r]) @ refold Q cur ys"
      using d by (rule Cons.IH)
    with False show ?thesis by simp
  qed
qed

lemma refold_cong:
  "(\<forall>r\<in>set ys. Q r = S r) \<Longrightarrow> refold Q cur ys = refold S cur ys"
  by (induction ys arbitrary: cur) (simp_all add: Let_def)

lemma map_row_id_refold: "map row_id (refold Q cur ys) = map row_id ys"
  by (induction ys arbitrary: cur) (simp_all add: Let_def)

lemma refold_stream_fold:
  "balance_fold p (filter (in_stream u c) ys) \<Longrightarrow>
   balance_fold cur (filter (in_stream u c) (refold (in_stream u c) cur ys))"
proof (induction ys arbitrary: p cur)
  case Nil
  then show ?case by simp
next
  case (Cons r ys)
  show ?case
  proof (cases "in_stream u c r")
    case True
    with Cons.prems have ty: "str_lower (trans_type r) = ''income'' \<or>
        str_lower (trans_type r) = ''expense''"
      and rest: "balance_fold (balance r) (filter (in_stream u c) ys)"
      by auto
    from ty show ?thesis
      using True Cons.IH [OF rest] by (auto simp: Let_def)
  next
    case False
    with Cons show ?thesis by simp
  qed
qed

lemma refold_other:
  assumes "\<forall>r\<in>set ys. Q r \<longrightarrow> \<not> P r" and "\<And>r b. P (r\<lparr>balance := b\<rparr>) = P r"
  shows "filter P (refold Q cur ys) = filter P ys"
  using assms(1) by (induction ys arbitrary: cur) (simp_all add: Let_def assms(2))

lemma refold_filter:
  "filter (in_stream u k) (refold (in_stream u k) cur ys) =
   refold (in_stream u k) cur (filter (in_stream u k) ys)"
  by (induction ys arbitrary: cur) (simp_all add: Let_def)

lemma delete_char:
  assumes wf: "wf_db db"
    and del: "delete_transaction_and_recalculate db uid tid = Inr db'"
  shows "\<exists>xs t ys. transactions db = xs @ t # ys \<and> row_id t = tid \<and> user_id t = uid \<and>
           \<not> is_deleted t \<and> (\<forall>x\<in>set xs. row_id x < tid) \<and> (\<forall>y\<in>set ys. tid < row_id y) \<and>
           db' = db\<lparr>transactions :=
                  xs @ t\<lparr>is_deleted := True\<rparr> #
                  refold (in_stream uid (currency t))
                    (last_balance 0 (filter (in_stream uid (currency t)) xs)) ys\<rparr>"
proof -
  let ?P = "\<lambda>r. row_id r = tid \<and> user_id r = uid \<and> \<not> is_deleted r"
  from del obtain t where f: "find ?P (transactions db) = Some t"
    by (auto simp: delete_transaction_and_recalculate_def split: option.splits)
  then obtain xs ys where rows: "transactions db = xs @ t # ys" and t: "?P t"
    using find_split [of ?P "transactions db" t] by blast
  define c where "c = currency t"
  define t' where "t' = t\<lparr>is_deleted := True\<rparr>"
  define rs1 where "rs1 = xs @ t' # ys"
  let ?P1 = "\<lambda>r. user_id r = uid \<and> currency r = c \<and> row_id r < tid \<and> \<not> is_deleted r"
  let ?Q = "\<lambda>r. user_id r = uid \<and> currency r = c \<and> row_id r > tid \<and> \<not> is_deleted r"
  from wf rows have srt: "sorted_wrt (<) (map row_id (xs @ t # ys))"
    by (simp add: wf_db_def)
  then have lo: "\<forall>x\<in>set xs. row_id x < tid" and hi: "\<forall>y\<in>set ys. tid < row_id y"
    using t by (auto simp: sorted_wrt_append)
  from srt have dist: "distinct (map row_id (xs @ t # ys))"
    by (simp add: strict_sorted_iff)
  have rs1: "set_is_deleted tid (transactions db) = rs1"
    using set_is_deleted_distinct [OF dist] t by (simp add: rows rs1_def t'_def)
  have ids1: "map row_id rs1 = map row_id (xs @ t # ys)"
    by (simp add: rs1_def t'_def)
  have srt1: "sorted_wrt (<) (map row_id rs1)" using srt by (simp only: ids1)
  have dist1: "distinct (map row_id ((xs @ [t']) @ ys))"
    using dist by (simp add: t'_def)
  have p1: "filter ?P1 rs1 = filter (in_stream uid c) xs"
  proof -
    have "filter ?P1 xs = filter (in_stream uid c) xs"
      using lo by (auto simp: in_stream_def intro: filter_cong)
    moreover have "filter ?P1 ys = []" using hi by (auto simp: filter_empty_conv)
    ultimately show ?thesis using t by (simp add: rs1_def t'_def)
  qed
  have q: "filter ?Q rs1 = filter ?Q ys"
  proof -
    have "filter ?Q xs = []" using lo by (auto simp: filter_empty_conv)
    then show ?thesis using t by (simp add: rs1_def t'_def)
  qed
  have prev: "(case order_by_id_desc (filter ?P1 rs1) of [] \<Rightarrow> 0 | r # _ \<Rightarrow> balance r) =
              last_balance 0 (filter (in_stream uid c) xs)"
    using sort_key_filter_sorted [OF srt1, of ?P1]
    by (simp add: order_by_id_desc_def last_balance_rev p1)
  have subs: "order_by_id (filter ?Q rs1) = filter ?Q ys"
    using sort_key_filter_sorted [OF srt1, of ?Q] by (simp add: order_by_id_def q)
  have qs: "\<forall>r\<in>set ys. ?Q r = in_stream uid c r"
    using hi by (auto simp: in_stream_def)
  have "recalculate (last_balance 0 (filter (in_stream uid c) xs))
          (map (\<lambda>r. (row_id r, trans_type r, amount r)) (filter ?Q ys)) rs1 =
        (xs @ [t']) @ refold ?Q (last_balance 0 (filter (in_stream uid c) xs)) ys"
    using recalculate_refold [OF dist1, of _ ?Q] by (simp add: rs1_def)
  also have "refold ?Q (last_balance 0 (filter (in_stream uid c) xs)) ys =
             refold (in_stream uid c) (last_balance 0 (filter (in_stream uid c) xs)) ys"
    using qs by (rule refold_cong)
  finally have rec: "recalculate (last_balance 0 (filter (in_stream uid c) xs))
          (map (\<lambda>r. (row_id r, trans_type r, amount r)) (filter ?Q ys)) rs1 =
        xs @ t' # refold (in_stream uid c) (last_balance 0 (filter (in_stream uid c) xs)) ys"
    by simp
  have "db' = db\<lparr>transactions :=
                  xs @ t' # refold (in_stream uid c)
                    (last_balance 0 (filter (in_stream uid c) xs)) ys\<rparr>"
    using del f
    by (simp add: delete_transaction_and_recalculate_def Let_def rs1 c_def [symmetric]
        prev subs rec)
  with rows t lo hi show ?thesis
    unfolding c_def t'_def by blast
qed

lemma delete_wf:
  assumes "wf_db db" and "delete_transaction_and_recalculate db uid tid = Inr db'"
  shows "wf_db db'"
proof -
  from delete_char [OF assms] have "sqlite_sequence db' = sqlite_sequence db" by auto
  moreover from assms(1) have
    "list_all (\<lambda>i. i \<le> sqlite_sequence db) (map row_id (transactions db))"
    by (simp add: wf_db_def list_all_iff)
  ultimately have "list_all (\<lambda>i. i \<le> sqlite_sequence db') (map row_id (transactions db'))"
    by (simp only: delete_row_ids [OF assms(2)])
  then have "list_all (\<lambda>r. row_id r \<le> sqlite_sequence db') (transactions db')"
    by (simp add: list_all_iff)
  moreover from assms(1) have "sorted_wrt (<) (map row_id (transactions db'))"
    by (simp only: delete_row_ids [OF assms(2)] wf_db_def)
  ultimately show ?thesis by (simp add: wf_db_def)
qed

lemma delete_succeeds:
  assumes "r \<in> set (transactions db)" and "user_id r = uid" and "\<not> is_deleted r"
  shows "\<exists>db'. delete_transaction_and_recalculate db uid (row_id r) = Inr db'"
proof -
  have "find (\<lambda>x. row_id x = row_id r \<and> user_id x = uid \<and> \<not> is_deleted x) (transactions db) \<noteq> None"
    using assms by (auto simp: find_None_iff_all)
  then show ?thesis
    by (auto simp: delete_transaction_and_recalculate_def Let_def)
qed

lemma delete_inv:
  assumes wf: "wf_db db" and fi: "fold_inv db"
    and del: "delete_transaction_and_recalculate db uid tid = Inr db'"
  shows "wf_db db' \<and> fold_inv db'"
proof -
  from delete_char [OF wf del] obtain xs t ys where
    rows: "transactions db = xs @ t # ys" and t: "row_id t = tid" "user_id t = uid" "\<not> is_deleted t"
    and db': "db' = db\<lparr>transactions :=
                  xs @ t\<lparr>is_deleted := True\<rparr> #
                  refold (in_stream uid (currency t))
                    (last_balance 0 (filter (in_stream uid (currency t)) xs)) ys\<rparr>"
    by blast
  define c where "c = currency t"
  define cur where "cur = last_balance 0 (filter (in_stream uid c) xs)"
  have rows': "transactions db' = xs @ t\<lparr>is_deleted := True\<rparr> # refold (in_stream uid c) cur ys"
    by (simp add: db' c_def cur_def)
  have seq': "sqlite_sequence db' = sqlite_sequence db" by (simp add: db')
  have ids: "map row_id (transactions db') = map row_id (transactions db)"
    by (simp add: rows rows' map_row_id_refold)
  have "wf_db db'"
  proof -
    from wf have "list_all (\<lambda>i. i \<le> sqlite_sequence db) (map row_id (transactions db))"
      by (simp add: wf_db_def list_all_iff)
    then have "list_all (\<lambda>i. i \<le> sqlite_sequence db') (map row_id (transactions db'))"
      by (simp only: ids seq')
    then have "list_all (\<lambda>r. row_id r \<le> sqlite_sequence db') (transactions db')"
      by (simp add: list_all_iff)
    moreover from wf have "sorted_wrt (<) (map row_id (transactions db'))"
      by (simp only: ids wf_db_def)
    ultimately show ?thesis by (simp add: wf_db_def)
  qed
  moreover have "fold_inv db'"
    unfolding fold_inv_def
  proof (intro allI)
    fix u k
    from fi have old: "balance_fold 0 (filter (in_stream u k) (xs @ t # ys))"
      by (simp add: fold_inv_def rows)
    have tdel: "\<not> in_stream u k (t\<lparr>is_deleted := True\<rparr>)" by (simp add: in_stream_def)
    show "balance_fold 0 (filter (in_stream u k) (transactions db'))"
    proof (cases "u = uid \<and> k = c")
      case True
      then have tin: "in_stream u k t" using t by (simp add: in_stream_def c_def)
      from old tin have pre: "balance_fold 0 (filter (in_stream uid c) xs)"
        and post: "balance_fold (balance t) (filter (in_stream uid c) ys)"
        using True by (auto simp: balance_fold_append)
      from post have "balance_fold cur (filter (in_stream uid c) (refold (in_stream uid c) cur ys))"
        by (rule refold_stream_fold)
      with pre show ?thesis
        using True tdel by (simp add: rows' balance_fold_append cur_def)
    next
      case False
      then have tout: "\<not> in_stream u k t" using t by (auto simp: in_stream_def c_def)
      have "\<forall>r\<in>set ys. in_stream uid c r \<longrightarrow> \<not> in_stream u k r"
        using False by (auto simp: in_stream_def)
      then have "filter (in_stream u k) (refold (in_stream uid c) cur ys) = filter (in_stream u k) ys"
        by (rule refold_other) simp
      with old tout tdel show ?thesis by (simp add: rows')
    qed
  qed
  ultimately show ?thesis ..
qed

lemma split_three:
  assumes "l1 @ b # l2 = [a, b, c]" and "b \<notin> set l1" and "b \<notin> set l2"
  shows "l1 = [a] \<and> l2 = [c]"
proof (cases l1)
  case Nil
  with assms show ?thesis by auto
next
  case (Cons x l1')
  with assms have "l1' @ b # l2 = [b, c]" and x: "x = a" by auto
  then show ?thesis using assms(2) Cons by (cases l1') auto
qed

lemma dropWhile_none: "\<forall>y\<in>set ys. \<not> P y \<Longrightarrow> dropWhile P ys = ys"
  by (cases ys) simp_all

lemma takeWhile_mid:
  assumes "\<forall>x\<in>set xs. P x" and "\<not> P t"
  shows "takeWhile P (xs @ t # ys) = xs"
  using assms by (simp add: takeWhile_append2)

lemma dropWhile_mid:
  assumes "\<forall>x\<in>set xs. Q x" and "Q t" and "\<forall>y\<in>set ys. \<not> Q y"
  shows "dropWhile Q (xs @ t # ys) = ys"
  using assms by (simp add: dropWhile_append2 dropWhile_none)

lemma delete_streams:
  assumes wf: "wf_db db"
    and del: "delete_transaction_and_recalculate db uid tid = Inr db'"
  shows "\<exists>t\<in>set (transactions db). row_id t = tid \<and> user_id t = uid \<and> \<not> is_deleted t \<and>
           filter (\<lambda>r. currency r \<noteq> currency t) (transactions db') =
             filter (\<lambda>r. currency r \<noteq> currency t) (transactions db) \<and>
           (\<forall>u x. u \<noteq> uid \<or> x \<noteq> currency t \<longrightarrow> stream db' u x = stream db u x) \<and>
           stream db' uid (currency t) =
             takeWhile (\<lambda>r. row_id r < tid) (stream db uid (currency t)) @
             refold (\<lambda>r. True)
               (last_balance 0 (takeWhile (\<lambda>r. row_id r < tid) (stream db uid (currency t))))
               (dropWhile (\<lambda>r. row_id r \<le> tid) (stream db uid (currency t)))"
proof -
  from delete_char [OF wf del] obtain xs t ys where
    rows: "transactions db = xs @ t # ys" and t: "row_id t = tid" "user_id t = uid" "\<not> is_deleted t"
    and lo: "\<forall>x\<in>set xs. row_id x < tid" and hi: "\<forall>y\<in>set ys. tid < row_id y"
    and db': "db' = db\<lparr>transactions :=
                  xs @ t\<lparr>is_deleted := True\<rparr> #
                  refold (in_stream uid (currency t))
                    (last_balance 0 (filter (in_stream uid (currency t)) xs)) ys\<rparr>"
    by blast
  define c where "c = currency t"
  define cur where "cur = last_balance 0 (filter (in_stream uid c) xs)"
  let ?S = "in_stream uid c"
  have rows': "transactions db' = xs @ t\<lparr>is_deleted := True\<rparr> # refold ?S cur ys"
    by (simp add: db' c_def cur_def)
  have wf': "wf_db db'" using wf del by (rule delete_wf)
  have tS: "?S t" using t by (simp add: in_stream_def c_def)
  have other_cur: "filter (\<lambda>r. currency r \<noteq> c) (transactions db') =
             filter (\<lambda>r. currency r \<noteq> c) (transactions db)"
  proof -
    have "\<forall>r\<in>set ys. ?S r \<longrightarrow> \<not> currency r \<noteq> c" by (simp add: in_stream_def)
    then have "filter (\<lambda>r. currency r \<noteq> c) (refold ?S cur ys) = filter (\<lambda>r. currency r \<noteq> c) ys"
      by (rule refold_other) simp
    then show ?thesis by (simp add: rows rows' c_def)
  qed
  have other_stream: "stream db' u x = stream db u x" if "u \<noteq> uid \<or> x \<noteq> c" for u x
  proof -
    have "\<forall>r\<in>set ys. ?S r \<longrightarrow> \<not> in_stream u x r"
      using that by (auto simp: in_stream_def)
    then have "filter (in_stream u x) (refold ?S cur ys) = filter (in_stream u x) ys"
      by (rule refold_other) simp
    moreover have "\<not> in_stream u x t" using that t by (auto simp: in_stream_def c_def)
    moreover have "\<not> in_stream u x (t\<lparr>is_deleted := True\<rparr>)" by (simp add: in_stream_def)
    ultimately have "filter (in_stream u x) (transactions db') = filter (in_stream u x) (transactions db)"
      by (simp add: rows rows')
    then show ?thesis by (simp add: stream_wf [OF wf] stream_wf [OF wf'])
  qed
  have own: "stream db' uid c =
             takeWhile (\<lambda>r. row_id r < tid) (stream db uid c) @
             refold (\<lambda>r. True) (last_balance 0 (takeWhile (\<lambda>r. row_id r < tid) (stream db uid c)))
               (dropWhile (\<lambda>r. row_id r \<le> tid) (stream db uid c))"
  proof -
    have s: "stream db uid c = filter ?S xs @ t # filter ?S ys"
      using tS by (simp add: stream_wf [OF wf] rows)
    have tw: "takeWhile (\<lambda>r. row_id r < tid) (stream db uid c) = filter ?S xs"
      unfolding s using lo t by (intro takeWhile_mid) auto
    have dw: "dropWhile (\<lambda>r. row_id r \<le> tid) (stream db uid c) = filter ?S ys"
      unfolding s using lo hi t by (intro dropWhile_mid) auto
    have "\<not> ?S (t\<lparr>is_deleted := True\<rparr>)" by (simp add: in_stream_def)
    then have "stream db' uid c = filter ?S xs @ refold ?S cur (filter ?S ys)"
      by (simp add: stream_wf [OF wf'] rows' refold_filter)
    also have "refold ?S cur (filter ?S ys) = refold (\<lambda>r. True) cur (filter ?S ys)"
      by (rule refold_cong) simp
    finally show ?thesis by (simp add: tw dw cur_def)
  qed
  have "t \<in> set (transactions db)" by (simp add: rows)
  with t other_cur other_stream own show ?thesis
    unfolding c_def by blast
qed

subsection \<open>Debts and reminders\<close>

lemma set_debt_paid_wf: "wf_db db \<Longrightarrow> wf_db (set_debt_paid tid db)"
  unfolding set_debt_paid_def by (rule map_fields_wf) simp_all

lemma mark_notified_wf: "wf_db db \<Longrightarrow> wf_db (mark_notified tid db)"
  unfolding mark_notified_def by (rule map_fields_wf) simp_all

lemma notify_loop_wf: "wf_db db \<Longrightarrow> wf_db (notify_loop delivered ds db)"
proof (induction ds arbitrary: db)
  case Nil
  then show ?case by simp
next
  case (Cons d ds)
  obtain debt_id uid debtor amnt cur where d: "d = (debt_id, uid, debtor, amnt, cur)"
    by (cases d)
  show ?case
  proof (cases "debtor \<noteq> None \<and> delivered debt_id")
    case True
    then have "notify_loop delivered (d # ds) db = notify_loop delivered ds (mark_notified debt_id db)"
      by (auto simp: d)
    with Cons.IH [OF mark_notified_wf [OF Cons.prems]] show ?thesis by simp
  next
    case False
    then have "notify_loop delivered (d # ds) db = notify_loop delivered ds db"
      by (auto simp: d)
    with Cons show ?thesis by simp
  qed
qed

lemma map_fields_inv:
  assumes g: "\<And>r. row_id (g r) = row_id r \<and> user_id (g r) = user_id r \<and>
                 currency (g r) = currency r \<and> is_deleted (g r) = is_deleted r \<and>
                 trans_type (g r) = trans_type r \<and> amount (g r) = amount r \<and>
                 balance (g r) = balance r"
    and wf: "wf_db db" and fi: "fold_inv db"
  shows "wf_db (db\<lparr>transactions := map g (transactions db)\<rparr>) \<and>
         fold_inv (db\<lparr>transactions := map g (transactions db)\<rparr>)"
proof
  have c: "row_id \<circ> g = row_id" by (rule ext) (simp add: g)
  show "wf_db (db\<lparr>transactions := map g (transactions db)\<rparr>)"
    using wf by (simp add: wf_db_def list_all_iff g c)
next
  have s: "\<And>u c. in_stream u c \<circ> g = in_stream u c"
    by (rule ext) (simp add: in_stream_def g)
  show "fold_inv (db\<lparr>transactions := map g (transactions db)\<rparr>)"
    using fi g by (simp add: fold_inv_def filter_map s balance_fold_map)
qed

lemma set_debt_paid_inv:
  "wf_db db \<Longrightarrow> fold_inv db \<Longrightarrow> wf_db (set_debt_paid tid db) \<and> fold_inv (set_debt_paid tid db)"
  unfolding set_debt_paid_def by (rule map_fields_inv) simp_all

lemma mark_notified_inv:
  "wf_db db \<Longrightarrow> fold_inv db \<Longrightarrow> wf_db (mark_notified tid db) \<and> fold_inv (mark_notified tid db)"
  unfolding mark_notified_def by (rule map_fields_inv) simp_all

lemma notify_loop_inv:
  "wf_db db \<Longrightarrow> fold_inv db \<Longrightarrow>
   wf_db (notify_loop delivered ds db) \<and> fold_inv (notify_loop delivered ds db)"
proof (induction ds arbitrary: db)
  case Nil
  then show ?case by simp
next
  case (Cons d ds)
  obtain debt_id uid debtor amnt cur where d: "d = (debt_id, uid, debtor, amnt, cur)"
    by (cases d)
  show ?case
  proof (cases "debtor \<noteq> None \<and> delivered debt_id")
    case True
    from mark_notified_inv [OF Cons.prems] Cons.IH [of "mark_notified debt_id db"]
    show ?thesis using True by (simp add: d)
  next
    case False
    then have "notify_loop delivered (d # ds) db = notify_loop delivered ds db"
      by (auto simp: d)
    with Cons show ?thesis by simp
  qed
qed

lemma notify_loop_none:
  "\<forall>d\<in>set ds. \<not> delivered (fst d) \<Longrightarrow> notify_loop delivered ds db = db"
proof (induction ds)
  case Nil
  then show ?case by simp
next
  case (Cons d ds)
  obtain debt_id uid debtor amnt cur where d: "d = (debt_id, uid, debtor, amnt, cur)"
    by (cases d)
  from Cons show ?case by (simp add: d)
qed

lemma button_handler_debt_paid_rows:
  assumes "button_handler_debt_paid clock db uid tid = Inr (db1, db2)"
  shows "\<exists>r bs ids. find (\<lambda>r. row_id r = tid \<and> user_id r = uid \<and> \<not> is_deleted r)
              (transactions db) = Some r \<and> debt_status r = ''open'' \<and>
           add_multiple_transactions clock db uid [repayment_draft r] = Inr (db1, bs, ids) \<and>
           db2 = set_debt_paid tid db1"
  using assms
  by (auto simp: button_handler_debt_paid_def split: option.splits if_splits sum.splits)

lemma button_handler_debt_paid_inv:
  assumes "wf_db db" and "fold_inv db"
    and "button_handler_debt_paid clock db uid tid = Inr (db1, db2)"
  shows "wf_db db1 \<and> fold_inv db1 \<and> wf_db db2 \<and> fold_inv db2"
proof -
  from assms(3) obtain r bs ids where
    a: "add_multiple_transactions clock db uid [repayment_draft r] = Inr (db1, bs, ids)"
    and d2: "db2 = set_debt_paid tid db1"
    by (auto simp: button_handler_debt_paid_def split: option.splits if_splits sum.splits)
  from add_multiple_transactions_inv [OF a assms(1,2)] have "wf_db db1 \<and> fold_inv db1" .
  then show ?thesis using set_debt_paid_inv [of db1 tid] by (simp add: d2)
qed

text \<open>
  The handler of the button looks the row up by id and user among the rows that are not
  deleted and tests its status, and nothing else: when there is no such row, or its
  status is not 'open', it answers \<open>NotCompleted\<close> and the database is as it was.
\<close>

lemma debt_paid_refused:
  assumes "find (\<lambda>x. row_id x = tid \<and> user_id x = uid \<and> \<not> is_deleted x)
             (transactions db) = None \<or>
           (\<exists>r. find (\<lambda>x. row_id x = tid \<and> user_id x = uid \<and> \<not> is_deleted x)
                  (transactions db) = Some r \<and> debt_status r \<noteq> ''open'')"
  shows "button_handler_debt_paid clock db uid tid = Inl NotCompleted \<and>
         exec clock db (DebtPaid uid tid) = db"
  using assms by (auto simp: button_handler_debt_paid_def)

subsection \<open>Sequences of requests\<close>

text \<open>
  What every request keeps: the constraints of the table and the balance fold, the ids
  of the rows that are there, a set reminder flag, and the two currencies.
\<close>

lemma exec_wf: "wf_db db \<Longrightarrow> wf_db (exec clock db req)"
proof (cases req)
  case (AppendBatch uid ts)
  assume "wf_db db"
  with AppendBatch show ?thesis
    by (auto split: sum.splits dest: add_multiple_transactions_wf)
next
  case (SoftDelete uid tid)
  assume "wf_db db"
  with SoftDelete show ?thesis by (auto split: sum.splits dest: delete_wf)
next
  case (DebtPaid uid tid)
  assume wf: "wf_db db"
  show ?thesis
  proof (cases "button_handler_debt_paid clock db uid tid")
    case (Inl e)
    with DebtPaid wf show ?thesis by simp
  next
    case (Inr res)
    obtain db1 db2 where res: "res = (db1, db2)" by (cases res)
    from button_handler_debt_paid_rows [OF Inr [unfolded res]] obtain r bs ids where
      a: "add_multiple_transactions clock db uid [repayment_draft r] = Inr (db1, bs, ids)"
      and d2: "db2 = set_debt_paid tid db1" by blast
    from add_multiple_transactions_wf [OF a wf] have "wf_db db2"
      unfolding d2 by (rule set_debt_paid_wf)
    with DebtPaid Inr res show ?thesis by simp
  qed
next
  case (CheckDue delivered today_str)
  assume "wf_db db"
  with CheckDue show ?thesis by (simp add: check_due_debts_def notify_loop_wf)
qed

lemma exec_inv:
  assumes "wf_db db" and "fold_inv db"
  shows "wf_db (exec clock db req) \<and> fold_inv (exec clock db req)"
proof (cases req)
  case (AppendBatch uid ts)
  then show ?thesis
    using assms add_multiple_transactions_inv [OF _ assms, of clock uid ts]
    by (auto split: sum.splits)
next
  case (SoftDelete uid tid)
  then show ?thesis
    using assms delete_inv [OF assms, of uid tid] by (auto split: sum.splits)
next
  case (DebtPaid uid tid)
  then show ?thesis
    using assms button_handler_debt_paid_inv [OF assms, of clock uid tid]
    by (auto split: sum.splits)
next
  case (CheckDue delivered today_str)
  then show ?thesis
    using notify_loop_inv [OF assms] by (simp add: check_due_debts_def)
qed

lemma exec_all_inv:
  "wf_db db \<Longrightarrow> fold_inv db \<Longrightarrow>
   wf_db (exec_all clock db reqs) \<and> fold_inv (exec_all clock db reqs)"
  unfolding exec_all_def
proof (induction reqs arbitrary: db)
  case Nil
  then show ?case by simp
next
  case (Cons req reqs)
  from exec_inv [OF Cons.prems, of clock req] show ?case
    using Cons.IH [of "exec clock db req"] by simp
qed

lemma reachable_wf: "wf_db (exec_all clock init_db reqs)"
  using exec_all_inv [OF wf_init_db fold_inv_init_db, of clock reqs] by simp

lemma set_debt_paid_row_ids: "map row_id (transactions (set_debt_paid tid db)) = map row_id (transactions db)"
  by (simp add: set_debt_paid_def o_def)

lemma mark_notified_row_ids: "map row_id (transactions (mark_notified tid db)) = map row_id (transactions db)"
  by (simp add: mark_notified_def o_def)

lemma notify_loop_row_ids:
  "map row_id (transactions (notify_loop delivered ds db)) = map row_id (transactions db)"
proof (induction ds arbitrary: db)
  case Nil
  then show ?case by simp
next
  case (Cons d ds)
  obtain debt_id uid debtor amnt cur where d: "d = (debt_id, uid, debtor, amnt, cur)"
    by (cases d)
  show ?case by (simp add: d Cons.IH mark_notified_row_ids)
qed

lemma exec_row_ids:
  "\<exists>new. map row_id (transactions (exec clock db req)) = map row_id (transactions db) @ new \<and>
         (\<forall>uid ts. req = AppendBatch uid ts \<longrightarrow> returned_ids clock db req = new)"
proof (cases req)
  case (AppendBatch uid ts)
  show ?thesis
  proof (cases "add_multiple_transactions clock db uid ts")
    case (Inl e)
    with AppendBatch show ?thesis by simp
  next
    case (Inr res)
    obtain db' bs ids where res: "res = (db', bs, ids)" by (cases res)
    from add_multiple_transactions_rows [OF Inr [unfolded res]] obtain new
      where "transactions db' = transactions db @ new" "ids = map row_id new" by blast
    with AppendBatch Inr res show ?thesis by simp
  qed
next
  case (SoftDelete uid tid)
  then show ?thesis by (auto simp: delete_row_ids split: sum.splits)
next
  case (DebtPaid uid tid)
  show ?thesis
  proof (cases "button_handler_debt_paid clock db uid tid")
    case (Inl e)
    with DebtPaid show ?thesis by simp
  next
    case (Inr res)
    obtain db1 db2 where res: "res = (db1, db2)" by (cases res)
    from Inr res obtain r bs ids where
      a: "add_multiple_transactions clock db uid [repayment_draft r] = Inr (db1, bs, ids)"
      and d2: "db2 = set_debt_paid tid db1"
      by (auto simp: button_handler_debt_paid_def split: option.splits if_splits sum.splits)
    from add_multiple_transactions_rows [OF a] obtain new
      where "transactions db1 = transactions db @ new" by blast
    with DebtPaid Inr res d2 show ?thesis by (simp add: set_debt_paid_row_ids)
  qed
next
  case (CheckDue delivered today_str)
  then show ?thesis by (simp add: check_due_debts_def notify_loop_row_ids)
qed

lemma exec_all_row_ids:
  "\<exists>new. map row_id (transactions (exec_all clock db reqs)) = map row_id (transactions db) @ new"
  unfolding exec_all_def
proof (induction reqs arbitrary: db)
  case Nil
  then show ?case by simp
next
  case (Cons req reqs)
  from exec_row_ids [of clock db req] obtain n1 where
    "map row_id (transactions (exec clock db req)) = map row_id (transactions db) @ n1" by blast
  moreover from Cons [of "exec clock db req"] obtain n2 where
    "map row_id (transactions (foldl (exec clock) (exec clock db req) reqs)) =
     map row_id (transactions (exec clock db req)) @ n2" by blast
  ultimately show ?case by simp
qed

lemma id_log_sorted:
  assumes "wf_db db" and "fold_inv db"
  shows "sorted_wrt (<) (id_log clock db reqs) \<and>
         (\<forall>i\<in>set (id_log clock db reqs).
            (\<forall>j\<in>set (map row_id (transactions db)). j < i) \<and>
            i \<in> set (map row_id (transactions (exec_all clock db reqs))))"
  using assms
proof (induction reqs arbitrary: db)
  case Nil
  then show ?case by simp
next
  case (Cons req reqs)
  define db1 where "db1 = exec clock db req"
  from exec_inv [OF Cons.prems, of clock req] have wf1: "wf_db db1" and fi1: "fold_inv db1"
    by (simp_all add: db1_def)
  from Cons.IH [OF wf1 fi1] have
    s2: "sorted_wrt (<) (id_log clock db1 reqs)"
    and b2: "\<forall>i\<in>set (id_log clock db1 reqs).
            (\<forall>j\<in>set (map row_id (transactions db1)). j < i) \<and>
            i \<in> set (map row_id (transactions (exec_all clock db1 reqs)))"
    by simp_all
  from exec_row_ids [of clock db req] obtain new where
    new: "map row_id (transactions db1) = map row_id (transactions db) @ new"
    and ret: "\<forall>uid ts. req = AppendBatch uid ts \<longrightarrow> returned_ids clock db req = new"
    by (auto simp: db1_def)
  from wf1 have srt: "sorted_wrt (<) (map row_id (transactions db) @ new)"
    by (simp add: wf_db_def new)
  have sub: "set (returned_ids clock db req) \<subseteq> set new"
    using ret by (cases req) simp_all
  have s1: "sorted_wrt (<) (returned_ids clock db req)"
    using ret srt by (cases req) (simp_all add: sorted_wrt_append)
  from exec_all_row_ids [of clock db1 reqs] obtain n2 where
    n2: "map row_id (transactions (exec_all clock db1 reqs)) = map row_id (transactions db1) @ n2"
    by blast
  have ea: "exec_all clock db (req # reqs) = exec_all clock db1 reqs"
    by (simp add: exec_all_def db1_def)
  have "sorted_wrt (<) (id_log clock db (req # reqs))"
    using s1 s2 b2 sub by (auto simp: sorted_wrt_append db1_def [symmetric] new)
  moreover have "\<forall>i\<in>set (id_log clock db (req # reqs)).
            (\<forall>j\<in>set (map row_id (transactions db)). j < i) \<and>
            i \<in> set (map row_id (transactions (exec_all clock db (req # reqs))))"
  proof
    fix i assume "i \<in> set (id_log clock db (req # reqs))"
    then consider "i \<in> set (returned_ids clock db req)" | "i \<in> set (id_log clock db1 reqs)"
      by (auto simp: db1_def)
    then show "(\<forall>j\<in>set (map row_id (transactions db)). j < i) \<and>
            i \<in> set (map row_id (transactions (exec_all clock db (req # reqs))))"
    proof cases
      case 1
      with sub have "i \<in> set new" by blast
      then show ?thesis using srt by (auto simp: sorted_wrt_append ea n2 new)
    next
      case 2
      with b2 show ?thesis by (auto simp: ea new)
    qed
  qed
  ultimately show ?case by blast
qed

lemma add_keeps_notified:
  assumes a: "add_multiple_transactions clock db uid ts = Inr (db', bs, ids)"
    and wf: "wf_db db" and n: "notified_inv i db"
  shows "notified_inv i db'"
proof -
  from add_multiple_transactions_rows [OF a] obtain new where
    new: "transactions db' = transactions db @ new" by blast
  from add_multiple_transactions_wf [OF a wf] have
    "sorted_wrt (<) (map row_id (transactions db) @ map row_id new)"
    by (simp add: wf_db_def new)
  then have gt: "\<forall>x\<in>set (transactions db). \<forall>y\<in>set new. row_id x < row_id y"
    by (auto simp: sorted_wrt_append)
  from n obtain x where x: "x \<in> set (transactions db)" "row_id x = i"
    by (auto simp: notified_inv_def)
  with gt have "\<forall>y\<in>set new. i < row_id y" by blast
  then have "\<forall>y\<in>set new. row_id y \<noteq> i" by auto
  with n show ?thesis by (auto simp: notified_inv_def new)
qed

lemma notified_inv_proj:
  assumes "map (\<lambda>r. (row_id r, notified r)) rs' = map (\<lambda>r. (row_id r, notified r)) rs"
  shows "((\<exists>r\<in>set rs'. row_id r = i) \<and> (\<forall>r\<in>set rs'. row_id r = i \<longrightarrow> notified r)) =
         ((\<exists>r\<in>set rs. row_id r = i) \<and> (\<forall>r\<in>set rs. row_id r = i \<longrightarrow> notified r))"
proof -
  have e: "\<And>rs. ((\<exists>r\<in>set rs. row_id r = i) \<and> (\<forall>r\<in>set rs. row_id r = i \<longrightarrow> notified r)) =
       ((\<exists>p\<in>set (map (\<lambda>r. (row_id r, notified r)) rs). fst p = i) \<and>
        (\<forall>p\<in>set (map (\<lambda>r. (row_id r, notified r)) rs). fst p = i \<longrightarrow> snd p))"
    by auto
  show ?thesis by (simp only: e assms)
qed

lemma delete_keeps_notified:
  assumes "delete_transaction_and_recalculate db uid tid = Inr db'" and "notified_inv i db"
  shows "notified_inv i db'"
proof -
  have "map (\<lambda>r. (row_id r, notified r)) (transactions db') =
        map (\<lambda>r. (row_id r, notified r)) (transactions db)"
    by (rule delete_proj [OF _ _ assms(1)]) simp_all
  from notified_inv_proj [OF this, of i] assms(2) show ?thesis
    by (simp add: notified_inv_def)
qed

lemma notified_inv_map:
  assumes g: "\<And>r. row_id (g r) = row_id r" "\<And>r. notified r \<Longrightarrow> notified (g r)"
    and n: "notified_inv i db"
  shows "notified_inv i (db\<lparr>transactions := map g (transactions db)\<rparr>)"
proof -
  from n obtain r where r: "r \<in> set (transactions db)" "row_id r = i"
    by (auto simp: notified_inv_def)
  then have "g r \<in> set (map g (transactions db))" "row_id (g r) = i"
    by (simp_all add: g)
  then have ex: "\<exists>x\<in>set (map g (transactions db)). row_id x = i" by blast
  have "\<forall>x\<in>set (map g (transactions db)). row_id x = i \<longrightarrow> notified x"
  proof
    fix x assume "x \<in> set (map g (transactions db))"
    then obtain y where y: "y \<in> set (transactions db)" "x = g y" by auto
    show "row_id x = i \<longrightarrow> notified x"
    proof
      assume "row_id x = i"
      with y have "row_id y = i" by (simp add: g)
      with n y(1) have "notified y" by (simp add: notified_inv_def)
      then show "notified x" unfolding y(2) by (rule g(2))
    qed
  qed
  with ex show ?thesis by (simp add: notified_inv_def)
qed

lemma set_debt_paid_keeps_notified: "notified_inv i db \<Longrightarrow> notified_inv i (set_debt_paid tid db)"
  unfolding set_debt_paid_def by (rule notified_inv_map) simp_all

lemma mark_notified_keeps_notified: "notified_inv i db \<Longrightarrow> notified_inv i (mark_notified j db)"
  unfolding mark_notified_def by (rule notified_inv_map) simp_all

lemma notify_loop_keeps_notified:
  "notified_inv i db \<Longrightarrow> notified_inv i (notify_loop delivered ds db)"
proof (induction ds arbitrary: db)
  case Nil
  then show ?case by simp
next
  case (Cons d ds)
  obtain debt_id uid debtor amnt cur where d: "d = (debt_id, uid, debtor, amnt, cur)"
    by (cases d)
  show ?case
  proof (cases "debtor \<noteq> None \<and> delivered debt_id")
    case True
    then have "notify_loop delivered (d # ds) db = notify_loop delivered ds (mark_notified debt_id db)"
      by (auto simp: d)
    with Cons.IH [OF mark_notified_keeps_notified [OF Cons.prems]] show ?thesis by simp
  next
    case False
    then have "notify_loop delivered (d # ds) db = notify_loop delivered ds db"
      by (auto simp: d)
    with Cons show ?thesis by simp
  qed
qed

lemma exec_keeps_notified:
  assumes wf: "wf_db db" and n: "notified_inv i db"
  shows "notified_inv i (exec clock db req)"
proof (cases req)
  case (AppendBatch uid ts)
  with wf n show ?thesis by (auto split: sum.splits dest: add_keeps_notified)
next
  case (SoftDelete uid tid)
  with n show ?thesis by (auto split: sum.splits dest: delete_keeps_notified)
next
  case (DebtPaid uid tid)
  show ?thesis
  proof (cases "button_handler_debt_paid clock db uid tid")
    case (Inl e)
    with DebtPaid n show ?thesis by simp
  next
    case (Inr res)
    obtain db1 db2 where res: "res = (db1, db2)" by (cases res)
    from button_handler_debt_paid_rows [OF Inr [unfolded res]] obtain r bs ids where
      a: "add_multiple_transactions clock db uid [repayment_draft r] = Inr (db1, bs, ids)"
      and d2: "db2 = set_debt_paid tid db1" by blast
    from add_keeps_notified [OF a wf n] have "notified_inv i db2"
      unfolding d2 by (rule set_debt_paid_keeps_notified)
    with DebtPaid Inr res show ?thesis by simp
  qed
next
  case (CheckDue delivered today_str)
  with n show ?thesis by (simp add: check_due_debts_def notify_loop_keeps_notified)
qed

lemma exec_all_keeps_notified:
  "wf_db db \<Longrightarrow> notified_inv i db \<Longrightarrow> notified_inv i (exec_all clock db reqs)"
  unfolding exec_all_def
proof (induction reqs arbitrary: db)
  case Nil
  then show ?case by simp
next
  case (Cons req reqs)
  from Cons.IH [OF exec_wf [OF Cons.prems(1)] exec_keeps_notified [OF Cons.prems]]
  show ?case by simp
qed

lemma mark_notified_sets:
  assumes "\<exists>r\<in>set (transactions db). row_id r = i"
  shows "notified_inv i (mark_notified i db)"
proof -
  define g :: "'a transaction \<Rightarrow> 'a transaction"
    where "g = (\<lambda>r. if row_id r = i then r\<lparr>notified := True\<rparr> else r)"
  have gid: "\<And>x. row_id (g x) = row_id x" by (simp add: g_def)
  have gn: "\<And>x. row_id x = i \<Longrightarrow> notified (g x)" by (simp add: g_def)
  have t: "transactions (mark_notified i db) = map g (transactions db)"
    by (simp add: mark_notified_def g_def)
  from assms obtain r where r: "r \<in> set (transactions db)" "row_id r = i" by blast
  from r(1) have "g r \<in> set (map g (transactions db))" by (rule map_memI)
  moreover have "row_id (g r) = i" by (simp only: gid r(2))
  ultimately have ex: "\<exists>x\<in>set (map g (transactions db)). row_id x = i" by (rule bexI [rotated])
  have all: "\<forall>x\<in>set (map g (transactions db)). row_id x = i \<longrightarrow> notified x"
  proof (intro ballI impI)
    fix x assume x: "x \<in> set (map g (transactions db))" "row_id x = i"
    then obtain y where y: "y \<in> set (transactions db)" "x = g y" by auto
    from x(2) have "row_id y = i" by (simp only: y(2) gid)
    then show "notified x" unfolding y(2) by (rule gn)
  qed
  show ?thesis unfolding notified_inv_def t by (rule conjI [OF ex all])
qed

lemma currency_inv_proj:
  assumes "map currency (transactions db') = map currency (transactions db)"
  shows "currency_inv db' = currency_inv db"
proof -
  have e: "\<And>d. currency_inv d =
      list_all (\<lambda>c. c = ''UZS'' \<or> c = ''USD'') (map currency (transactions d))"
    by (simp add: currency_inv_def list_all_iff)
  show ?thesis by (simp only: e assms)
qed

lemma add_currency_inv:
  assumes "add_multiple_transactions clock db uid ts = Inr (db', bs, ids)" and "currency_inv db"
  shows "currency_inv db'"
proof -
  from add_multiple_transactions_rows [OF assms(1)] obtain new where
    "transactions db' = transactions db @ new"
    "list_all (\<lambda>r. user_id r = uid \<and> currency r \<in> {''UZS'', ''USD''} \<and>
                         currency r \<in> draft_currency ` set ts) new"
    by blast
  with assms(2) show ?thesis by (auto simp: currency_inv_def list_all_iff)
qed

lemma set_debt_paid_currency_inv: "currency_inv (set_debt_paid tid db) = currency_inv db"
  by (rule currency_inv_proj) (simp add: set_debt_paid_def o_def if_distrib cong: if_cong)

lemma mark_notified_currency_inv: "currency_inv (mark_notified tid db) = currency_inv db"
  by (rule currency_inv_proj) (simp add: mark_notified_def o_def if_distrib cong: if_cong)

lemma notify_loop_currency_inv:
  "currency_inv (notify_loop delivered ds db) = currency_inv db"
proof (induction ds arbitrary: db)
  case Nil
  then show ?case by simp
next
  case (Cons d ds)
  obtain debt_id uid debtor amnt cur where d: "d = (debt_id, uid, debtor, amnt, cur)"
    by (cases d)
  show ?case by (simp add: d Cons.IH mark_notified_currency_inv)
qed

lemma exec_currency_inv:
  assumes "currency_inv db"
  shows "currency_inv (exec clock db req)"
proof (cases req)
  case (AppendBatch uid ts)
  with assms show ?thesis by (auto split: sum.splits dest: add_currency_inv)
next
  case (SoftDelete uid tid)
  show ?thesis
  proof (cases "delete_transaction_and_recalculate db uid tid")
    case (Inl e)
    with SoftDelete assms show ?thesis by simp
  next
    case (Inr db')
    have "map currency (transactions db') = map currency (transactions db)"
      by (rule delete_proj [OF _ _ Inr]) simp_all
    from currency_inv_proj [OF this] SoftDelete Inr assms show ?thesis by simp
  qed
next
  case (DebtPaid uid tid)
  show ?thesis
  proof (cases "button_handler_debt_paid clock db uid tid")
    case (Inl e)
    with DebtPaid assms show ?thesis by simp
  next
    case (Inr res)
    obtain db1 db2 where res: "res = (db1, db2)" by (cases res)
    from button_handler_debt_paid_rows [OF Inr [unfolded res]] obtain r bs ids where
      a: "add_multiple_transactions clock db uid [repayment_draft r] = Inr (db1, bs, ids)"
      and d2: "db2 = set_debt_paid tid db1" by blast
    from add_currency_inv [OF a assms] have "currency_inv db2"
      by (simp add: d2 set_debt_paid_currency_inv)
    with DebtPaid Inr res show ?thesis by simp
  qed
next
  case (CheckDue delivered today_str)
  with assms show ?thesis by (simp add: check_due_debts_def notify_loop_currency_inv)
qed

lemma exec_all_currency_inv:
  "currency_inv db \<Longrightarrow> currency_inv (exec_all clock db reqs)"
  unfolding exec_all_def
  by (induction reqs arbitrary: db) (simp_all add: exec_currency_inv)

lemma currency_inv_init_db: "currency_inv init_db"
  by (simp add: currency_inv_def init_db_def)

text \<open>
  What the handler of the button does in a table reached from the empty one: a
  successful transition (the user's row with that id is found, not deleted, and its
  status is 'open') is two commits in this order. The first appends exactly one row \<open>R\<close>: an income of category
  'Debt Repayment' of the same user, with the amount and the currency of the debt's row
  \<open>r\<close> and the balance of that currency raised by the amount; the row \<open>r\<close> itself is in
  that database unchanged, its status still 'open'. The second changes nothing but the
  status of the row with that id, to 'paid': the row is \<open>r\<close> with that one column
  updated, so its amount, category and type are as they were.
\<close>

lemma debt_paid_two_commits:
  assumes reach: "db = exec_all clock0 init_db reqs"
    and found: "find (\<lambda>x. row_id x = tid \<and> user_id x = uid \<and> \<not> is_deleted x)
                  (transactions db) = Some r"
    and opn: "debt_status r = ''open''"
  shows "\<exists>db1 db2 R. button_handler_debt_paid clock db uid tid = Inr (db1, db2) \<and>
           transactions db1 = transactions db @ [R] \<and>
           row_id R = next_rowid db \<and> user_id R = uid \<and> trans_type R = ''income'' \<and>
           category R = ''Debt Repayment'' \<and> amount R = amount r \<and> currency R = currency r \<and>
           balance R = get_last_balance db uid (currency r) + amount r \<and>
           r \<in> set (transactions db1) \<and>
           transactions db2 =
             map (\<lambda>x. if row_id x = tid then x\<lparr>debt_status := ''paid''\<rparr> else x)
               (transactions db1) \<and>
           r\<lparr>debt_status := ''paid''\<rparr> \<in> set (transactions db2)"
proof -
  from found have rin: "r \<in> set (transactions db)" and rid: "row_id r = tid"
    using find_Some_mem [of _ "transactions db" r] by auto
  have "currency_inv db"
    unfolding reach using currency_inv_init_db by (rule exec_all_currency_inv)
  with rin have rc: "currency r = ''UZS'' \<or> currency r = ''USD''"
    by (auto simp: currency_inv_def list_all_iff)
  then have dc: "draft_currency (repayment_draft r) = currency r"
    by (auto simp: draft_currency_def repayment_draft_def str_upper_UZS str_upper_USD)
  have ty: "str_lower (d_type (repayment_draft r)) = ''income''"
    by (simp add: repayment_draft_def str_lower_def lower_char_def)
  have am: "d_amount (repayment_draft r) = amount r" by (simp add: repayment_draft_def)
  define bal where "bal = get_last_balance db uid (currency r) + amount r"
  define db1 where "db1 = insert_row clock db uid (repayment_draft r) (currency r) bal"
  define R where "R = new_row clock (next_rowid db) uid (repayment_draft r) (currency r) bal"
  from add_one_income [OF ty, of clock db uid] rc obtain bals where
    a: "add_multiple_transactions clock db uid [repayment_draft r] = Inr (db1, bals, [next_rowid db])"
    by (auto simp: dc am db1_def bal_def)
  have h: "button_handler_debt_paid clock db uid tid = Inr (db1, set_debt_paid tid db1)"
    by (simp add: button_handler_debt_paid_def found opn a)
  have r1: "transactions db1 = transactions db @ [R]"
    by (simp add: db1_def insert_row_def R_def)
  have rin1: "r \<in> set (transactions db1)" using rin by (simp add: r1)
  define g :: "'a transaction \<Rightarrow> 'a transaction"
    where "g = (\<lambda>x. if row_id x = tid then x\<lparr>debt_status := ''paid''\<rparr> else x)"
  have t2: "transactions (set_debt_paid tid db1) = map g (transactions db1)"
    by (simp add: set_debt_paid_def g_def)
  have gr: "g r = r\<lparr>debt_status := ''paid''\<rparr>" by (simp add: g_def rid)
  from rin1 have "g r \<in> set (map g (transactions db1))" by (rule map_memI)
  then have rin2: "r\<lparr>debt_status := ''paid''\<rparr> \<in> set (transactions (set_debt_paid tid db1))"
    by (simp only: t2 gr)
  have R: "row_id R = next_rowid db" "user_id R = uid" "trans_type R = ''income''"
    "category R = ''Debt Repayment''" "amount R = amount r" "currency R = currency r"
    "balance R = get_last_balance db uid (currency r) + amount r"
    by (simp_all add: R_def new_row_def repayment_draft_def bal_def)
  from h r1 R rin1 t2 [unfolded g_def] rin2 show ?thesis by blast
qed

subsection \<open>Dates as text\<close>

text \<open>
  On dates written \<^verbatim>\<open>YYYY-MM-DD\<close> the order of the texts, which is the order the query of
  \<^verbatim>\<open>check_due_debts\<close> compares \<^verbatim>\<open>return_date\<close> in, is the order of the calendar.
\<close>

lemma of_char_digit: "n < 10 \<Longrightarrow> (of_char (digit_char n) :: nat) = 48 + n"
  by (simp add: digit_char_def)

lemma digit_char_less: "a < 10 \<Longrightarrow> b < 10 \<Longrightarrow> (digit_char a < digit_char b) = (a < b)"
  by (simp only: less_char_def of_char_digit) simp

lemma divmod_less:
  fixes a b k :: nat
  assumes "0 < k"
  shows "(a div k < b div k \<or> a div k = b div k \<and> a mod k < b mod k) = (a < b)"
proof
  assume h: "a div k < b div k \<or> a div k = b div k \<and> a mod k < b mod k"
  have a: "a = k * (a div k) + a mod k" and b: "b = k * (b div k) + b mod k" by simp_all
  from h show "a < b"
  proof
    assume "a div k < b div k"
    then have "a div k + 1 \<le> b div k" by simp
    then have "k * (a div k + 1) \<le> k * (b div k)" by (rule mult_le_mono2)
    moreover have "a < k * (a div k + 1)"
      using dividend_less_times_div [OF assms, of a] by (simp add: algebra_simps)
    moreover have "k * (b div k) \<le> b" by simp
    ultimately show ?thesis by linarith
  next
    assume "a div k = b div k \<and> a mod k < b mod k"
    then show ?thesis using a b by (metis add_less_cancel_left)
  qed
next
  assume l: "a < b"
  then have "a div k \<le> b div k" by (simp add: div_le_mono)
  then consider "a div k < b div k" | "a div k = b div k" by linarith
  then show "a div k < b div k \<or> a div k = b div k \<and> a mod k < b mod k"
  proof cases
    case 1
    then show ?thesis by simp
  next
    case 2
    have "a = k * (a div k) + a mod k" and "b = k * (b div k) + b mod k" by simp_all
    with 2 l have "a mod k < b mod k" by (metis add_less_cancel_left)
    with 2 show ?thesis by simp
  qed
qed

lemma divmod_eq:
  fixes a b k :: nat
  shows "(a div k = b div k \<and> a mod k = b mod k) = (a = b)"
  by (metis div_mult_mod_eq)

lemma digit_char_eq:
  assumes "a < 10" and "b < 10"
  shows "(digit_char a = digit_char b) = (a = b)"
proof
  assume "digit_char a = digit_char b"
  then have "(of_char (digit_char a) :: nat) = of_char (digit_char b)" by simp
  with assms show "a = b" by (simp only: of_char_digit)
qed simp

lemma lex_append_less:
  fixes xs :: "('a::linorder) list"
  shows "length xs = length xs' \<Longrightarrow> (xs @ ys < xs' @ ys') = (xs < xs' \<or> xs = xs' \<and> ys < ys')"
  by (induction xs xs' rule: list_induct2) auto

lemma lex_append_le:
  fixes xs :: "('a::linorder) list"
  shows "length xs = length xs' \<Longrightarrow> (xs @ ys \<le> xs' @ ys') = (xs < xs' \<or> xs = xs' \<and> ys \<le> ys')"
  by (induction xs xs' rule: list_induct2) auto

lemma pad2_less:
  assumes a: "a < 100" and b: "b < 100"
  shows "(pad2 a < pad2 b) = (a < b)"
proof -
  have d: "a div 10 mod 10 = a div 10" "b div 10 mod 10 = b div 10" using a b by simp_all
  have q: "a div 10 < 10" "b div 10 < 10" using a b by simp_all
  have "(pad2 a < pad2 b) =
      (a div 10 < b div 10 \<or> a div 10 = b div 10 \<and> a mod 10 < b mod 10)"
    by (simp add: pad2_def d q digit_char_less digit_char_eq)
  also have "\<dots> = (a < b)" by (rule divmod_less) simp
  finally show ?thesis .
qed

lemma pad2_eq:
  assumes a: "a < 100" and b: "b < 100"
  shows "(pad2 a = pad2 b) = (a = b)"
proof -
  have d: "a div 10 mod 10 = a div 10" "b div 10 mod 10 = b div 10" using a b by simp_all
  have q: "a div 10 < 10" "b div 10 < 10" using a b by simp_all
  have "(pad2 a = pad2 b) = (a div 10 = b div 10 \<and> a mod 10 = b mod 10)"
    by (simp add: pad2_def d q digit_char_eq)
  also have "\<dots> = (a = b)" by (rule divmod_eq)
  finally show ?thesis .
qed

lemma pad2_le: "a < 100 \<Longrightarrow> b < 100 \<Longrightarrow> (pad2 a \<le> pad2 b) = (a \<le> b)"
  using pad2_less [of a b] pad2_eq [of a b] by (auto simp: le_less)

lemma length_pad2: "length (pad2 n) = 2"
  by (simp add: pad2_def)

lemma pad4_less:
  assumes a: "a < 10000" and b: "b < 10000"
  shows "(pad4 a < pad4 b) = (a < b)"
proof -
  have q: "a div 100 < 100" "b div 100 < 100" using a b by simp_all
  have "(pad4 a < pad4 b) =
      (a div 100 < b div 100 \<or> a div 100 = b div 100 \<and> a mod 100 < b mod 100)"
    by (simp add: pad4_def lex_append_less length_pad2 pad2_less pad2_eq q)
  also have "\<dots> = (a < b)" by (rule divmod_less) simp
  finally show ?thesis .
qed

lemma pad4_eq:
  assumes a: "a < 10000" and b: "b < 10000"
  shows "(pad4 a = pad4 b) = (a = b)"
proof -
  have q: "a div 100 < 100" "b div 100 < 100" using a b by simp_all
  have "(pad4 a = pad4 b) = (a div 100 = b div 100 \<and> a mod 100 = b mod 100)"
    by (simp add: pad4_def length_pad2 pad2_eq q)
  also have "\<dots> = (a = b)" by (rule divmod_eq)
  finally show ?thesis .
qed

lemma length_pad4: "length (pad4 n) = 4"
  by (simp add: pad4_def length_pad2)

lemma strftime_ymd_le:
  assumes "y < 10000" "y' < 10000" "m < 100" "m' < 100" "d < 100" "d' < 100"
  shows "(strftime_ymd y m d \<le> strftime_ymd y' m' d') =
         (y < y' \<or> y = y' \<and> (m < m' \<or> m = m' \<and> d \<le> d'))"
proof -
  have "(pad2 m @ CHR ''-'' # pad2 d \<le> pad2 m' @ CHR ''-'' # pad2 d') =
        (m < m' \<or> m = m' \<and> d \<le> d')"
    using assms by (simp add: lex_append_le length_pad2 pad2_less pad2_eq pad2_le)
  then show ?thesis
    using assms
    by (simp add: strftime_ymd_def lex_append_le length_pad4 pad4_less pad4_eq)
qed

lemma strftime_ymd_example: "strftime_ymd 2025 9 5 = ''2025-09-05''"
  by (simp add: strftime_ymd_def pad4_def pad2_def digit_char_def char_of_def bit_Suc_0_iff)

subsection \<open>Evaluation\<close>

text \<open>The equations that evaluate the operations on a concrete table.\<close>

lemmas eval_simps =
  add_multiple_transactions_def init_db_def get_last_balance_def order_by_id_desc_def
  order_by_id_def draft_currency_def str_upper_def upper_char_def str_lower_def
  lower_char_def insert_row_def new_row_def next_rowid_def char_of_def bit_Suc_0_iff Let_def
  delete_transaction_and_recalculate_def set_is_deleted_def set_balance_def exec_all_def
  stream_def in_stream_def get_all_transactions_def button_handler_debt_paid_def
  repayment_draft_def set_debt_paid_def is_due_def due_debts_def mark_notified_def
  check_due_debts_def

lemma debt_paid_two_commits_example:
  "ex_debt_store = exec_all ex_clock init_db [AppendBatch 7 [tx_debt, tx_B]] \<and>
   find (\<lambda>x. row_id x = 1 \<and> user_id x = 7 \<and> \<not> is_deleted x) (transactions ex_debt_store) =
     Some (new_row ex_clock 1 7 tx_debt ''UZS'' (- 10000)) \<and>
   debt_status (new_row ex_clock 1 7 tx_debt ''UZS'' (- 10000)) = ''open'' \<and>
   (\<exists>db1 db2 R. button_handler_debt_paid ex_clock ex_debt_store 7 1 = Inr (db1, db2) \<and>
      transactions db1 = transactions ex_debt_store @ [R] \<and>
      row_id R = next_rowid ex_debt_store \<and> user_id R = 7 \<and> trans_type R = ''income'' \<and>
      category R = ''Debt Repayment'' \<and>
      amount R = amount (new_row ex_clock 1 7 tx_debt ''UZS'' (- 10000)) \<and>
      currency R = currency (new_row ex_clock 1 7 tx_debt ''UZS'' (- 10000)) \<and>
      balance R = get_last_balance ex_debt_store 7
          (currency (new_row ex_clock 1 7 tx_debt ''UZS'' (- 10000))) +
        amount (new_row ex_clock 1 7 tx_debt ''UZS'' (- 10000)) \<and>
      new_row ex_clock 1 7 tx_debt ''UZS'' (- 10000) \<in> set (transactions db1) \<and>
      transactions db2 =
        map (\<lambda>x. if row_id x = 1 then x\<lparr>debt_status := ''paid''\<rparr> else x) (transactions db1) \<and>
      (new_row ex_clock 1 7 tx_debt ''UZS'' (- 10000))\<lparr>debt_status := ''paid''\<rparr>
        \<in> set (transactions db2))"
proof -
  have reach: "ex_debt_store = exec_all ex_clock init_db [AppendBatch 7 [tx_debt, tx_B]]"
    by (simp add: ex_debt_store_def exec_all_def)
  have es: "transactions ex_debt_store =
      [new_row ex_clock 1 7 tx_debt ''UZS'' (- 10000), new_row ex_clock 2 7 tx_B ''UZS'' (- 10030)]"
    by (simp add: ex_debt_store_def tx_debt_def tx_B_def eval_simps)
  have found: "find (\<lambda>x. row_id x = 1 \<and> user_id x = 7 \<and> \<not> is_deleted x)
      (transactions ex_debt_store) = Some (new_row ex_clock 1 7 tx_debt ''UZS'' (- 10000))"
    by (simp add: es new_row_def)
  have opn: "debt_status (new_row ex_clock 1 7 tx_debt ''UZS'' (- 10000)) = ''open''"
    by (simp add: new_row_def)
  note concl = debt_paid_two_commits [OF reach found opn, of ex_clock]
  show ?thesis by (intro conjI reach found opn concl)
qed

section \<open>The claims\<close>

text \<open>
  C1 (invariant I1, property P1). From the empty table, after any sequence of batches,
  deletions, debt payments and reminder runs, for every user and every currency the rows
  of that user and currency that are not deleted, ordered by id, satisfy the balance
  fold from 0: the balance of each row is the balance of the row before it plus its
  amount for an income and minus its amount for an expense.
\<close>

theorem balance_fold_reachable:
  "balance_fold 0 (stream (exec_all clock init_db reqs) uid cur)"
proof -
  from exec_all_inv [OF wf_init_db fold_inv_init_db, of clock reqs]
  have wf: "wf_db (exec_all clock init_db reqs)" and fi: "fold_inv (exec_all clock init_db reqs)"
    by simp_all
  from fi show ?thesis
    by (simp add: stream_def wf_order_by_id [OF wf] fold_inv_def)
qed

theorem balance_fold_reachable_witness:
  "map balance (stream (exec_all ex_clock init_db ex_requests) 7 ''UZS'') = [100, 150] \<and>
   balance_fold 0 (stream (exec_all ex_clock init_db ex_requests) 7 ''UZS'')"
  using balance_fold_reachable [of ex_clock ex_requests 7 "''UZS''"]
  by (simp add: eval_simps ex_requests_def tx_A_def tx_B_def tx_C_def)

text \<open>
  C2 (property P3). In any table that keeps its constraints and whose stream for one user
  and one currency is A (income 100, balance 100), B (expense 30, balance 70), C (income
  50, balance 120), deleting B succeeds; afterwards the stream is A, unchanged with
  balance 100, and C with balance 150; B's row is in the table marked deleted, and no row
  of \<^verbatim>\<open>get_all_transactions\<close> has B's id.
\<close>

theorem delete_middle_reconciles:
  fixes db :: "real database"
  assumes wf: "wf_db db"
    and st: "stream db uid cur = [a, b, c]"
    and a: "str_lower (trans_type a) = ''income''" "amount a = 100" "balance a = 100"
    and b: "str_lower (trans_type b) = ''expense''" "amount b = 30" "balance b = 70"
    and c: "str_lower (trans_type c) = ''income''" "amount c = 50" "balance c = 120"
  shows "\<exists>db'. delete_transaction_and_recalculate db uid (row_id b) = Inr db' \<and>
           stream db' uid cur = [a, c\<lparr>balance := 150\<rparr>] \<and> balance a = 100 \<and>
           b\<lparr>is_deleted := True\<rparr> \<in> set (transactions db') \<and>
           row_id b \<notin> row_id ` set (get_all_transactions db' uid)"
proof -
  let ?S = "in_stream uid cur"
  from st wf have fs: "filter ?S (transactions db) = [a, b, c]"
    by (simp add: stream_def wf_order_by_id)
  then have "b \<in> set (filter ?S (transactions db))" by simp
  then have bin: "b \<in> set (transactions db)" and bS: "?S b" by simp_all
  from bS have bu: "user_id b = uid" and bc: "currency b = cur" and bd: "\<not> is_deleted b"
    by (simp_all add: in_stream_def)
  from delete_succeeds [OF bin bu bd] obtain db' where
    del: "delete_transaction_and_recalculate db uid (row_id b) = Inr db'" by blast
  from wf have dist: "distinct (map row_id (transactions db))"
    by (simp add: wf_db_def strict_sorted_iff)
  from delete_char [OF wf del] obtain xs t ys where
    rows: "transactions db = xs @ t # ys" and tid: "row_id t = row_id b"
    and db': "db' = db\<lparr>transactions :=
                  xs @ t\<lparr>is_deleted := True\<rparr> #
                  refold (in_stream uid (currency t))
                    (last_balance 0 (filter (in_stream uid (currency t)) xs)) ys\<rparr>"
    by blast
  have "t \<in> set (transactions db)" by (simp add: rows)
  from same_id_same_row [OF dist this bin tid] have t: "t = b" .
  from dist have drows: "distinct (transactions db)" by (simp add: distinct_map)
  then have nb: "b \<notin> set xs" "b \<notin> set ys" by (simp_all add: rows t)
  have "filter ?S xs @ b # filter ?S ys = [a, b, c]"
    using fs bS by (simp add: rows t)
  from split_three [OF this] nb have fx: "filter ?S xs = [a]" and fy: "filter ?S ys = [c]"
    by simp_all
  have "c \<in> set (filter ?S ys)" by (simp add: fy)
  then have cS: "?S c" by simp
  have rows': "transactions db' = xs @ b\<lparr>is_deleted := True\<rparr> # refold ?S 100 ys"
    by (simp add: db' t bc fx last_balance_def a)
  have wf': "wf_db db'" using wf del by (rule delete_wf)
  have bdel: "\<not> ?S (b\<lparr>is_deleted := True\<rparr>)" by (simp add: in_stream_def)
  have "filter ?S (transactions db') = filter ?S xs @ refold ?S 100 (filter ?S ys)"
    using bdel by (simp add: rows' refold_filter)
  also have "\<dots> = [a, c\<lparr>balance := 150\<rparr>]"
    using cS c by (simp add: fx fy Let_def)
  finally have "filter ?S (transactions db') = [a, c\<lparr>balance := 150\<rparr>]" .
  moreover have "stream db' uid cur = filter ?S (transactions db')"
    by (simp add: stream_def wf_order_by_id [OF wf'])
  ultimately have s': "stream db' uid cur = [a, c\<lparr>balance := 150\<rparr>]" by simp
  have b': "b\<lparr>is_deleted := True\<rparr> \<in> set (transactions db')" by (simp add: rows')
  from wf' have dist': "distinct (map row_id (transactions db'))"
    by (simp add: wf_db_def strict_sorted_iff)
  have "row_id b \<notin> row_id ` set (get_all_transactions db' uid)"
  proof
    assume "row_id b \<in> row_id ` set (get_all_transactions db' uid)"
    then obtain r where r: "r \<in> set (transactions db')" "\<not> is_deleted r" "row_id r = row_id b"
      by (auto simp: get_all_transactions_def set_order_by_id_desc)
    from same_id_same_row [OF dist' r(1) b'] r(3) have "r = b\<lparr>is_deleted := True\<rparr>" by simp
    with r(2) show False by simp
  qed
  with del s' a(3) b' show ?thesis by blast
qed

theorem delete_middle_reconciles_witness:
  "wf_db ex_store \<and> stream ex_store 7 ''UZS'' = [row_A, row_B, row_C] \<and>
   (\<exists>db'. delete_transaction_and_recalculate ex_store 7 (row_id row_B) = Inr db' \<and>
           stream db' 7 ''UZS'' = [row_A, row_C\<lparr>balance := 150\<rparr>] \<and> balance row_A = 100 \<and>
           row_B\<lparr>is_deleted := True\<rparr> \<in> set (transactions db') \<and>
           row_id row_B \<notin> row_id ` set (get_all_transactions db' 7)) \<and>
   delete_transaction_and_recalculate ex_store 7 2 =
     Inr \<lparr>transactions = [row_A, row_B\<lparr>is_deleted := True\<rparr>, row_C\<lparr>balance := 150\<rparr>],
          sqlite_sequence = 3\<rparr>"
proof -
  have es: "ex_store = \<lparr>transactions = [row_A, row_B, row_C], sqlite_sequence = 3\<rparr>"
    by (simp add: ex_store_def row_A_def row_B_def row_C_def tx_A_def tx_B_def tx_C_def
        eval_simps)
  have wf: "wf_db ex_store"
    by (simp add: es wf_db_def row_A_def row_B_def row_C_def new_row_def)
  have st: "stream ex_store 7 ''UZS'' = [row_A, row_B, row_C]"
    by (simp add: es row_A_def row_B_def row_C_def eval_simps)
  have h: "str_lower (trans_type row_A) = ''income''" "amount row_A = 100" "balance row_A = 100"
    "str_lower (trans_type row_B) = ''expense''" "amount row_B = 30" "balance row_B = 70"
    "str_lower (trans_type row_C) = ''income''" "amount row_C = 50" "balance row_C = 120"
    by (simp_all add: row_A_def row_B_def row_C_def tx_A_def tx_B_def tx_C_def eval_simps)
  have d: "delete_transaction_and_recalculate ex_store 7 2 =
     Inr \<lparr>transactions = [row_A, row_B\<lparr>is_deleted := True\<rparr>, row_C\<lparr>balance := 150\<rparr>],
          sqlite_sequence = 3\<rparr>"
    by (simp add: es row_A_def row_B_def row_C_def tx_A_def tx_B_def tx_C_def eval_simps)
  from delete_middle_reconciles [OF wf st h] wf st d show ?thesis by blast
qed

text \<open>
  C3 (property P8, first half). As stated the claim fails: the function never looks at the
  sign of an amount. At the batch of \<open>tx_A\<close> (income 100) and \<open>tx_neg\<close> (income -5) on the
  empty table both ids are returned and both rows are committed, the second with its
  negative amount.
\<close>

theorem negative_amount_counterexample:
  "returned_ids ex_clock init_db (AppendBatch 7 [tx_A, tx_neg]) = [1, 2] \<and>
   map amount (transactions (exec ex_clock init_db (AppendBatch 7 [tx_A, tx_neg]))) = [100, - 5] \<and>
   map balance (transactions (exec ex_clock init_db (AppendBatch 7 [tx_A, tx_neg]))) = [100, 95]"
  by (simp add: eval_simps tx_A_def tx_neg_def)

text \<open>
  C3, amended. Take any batch that holds a candidate \<open>v\<close> with a positive amount and a
  candidate \<open>n\<close> with a negative amount, both of type income or expense, wherever and in
  whatever order they stand, and in which the candidates of type income or expense are
  in one of the two currencies. The batch is committed: the table gains one row for each
  candidate of type income or expense, \<open>v\<close> and \<open>n\<close> among them, in the order of the batch
  and with the amounts as given, and the ids returned are the ids of these rows, the next
  ids in order. A candidate gets no row and no id exactly when its type is neither income
  nor expense.
\<close>

theorem negative_amount_committed:
  fixes ts :: "real draft list"
  assumes "v \<in> set ts" and "n \<in> set ts"
    and "0 < d_amount v" and "d_amount n < 0"
    and "str_lower (d_type v) = ''expense'' \<or> str_lower (d_type v) = ''income''"
    and "str_lower (d_type n) = ''expense'' \<or> str_lower (d_type n) = ''income''"
    and "\<forall>t\<in>set ts. (str_lower (d_type t) = ''expense'' \<or> str_lower (d_type t) = ''income'') \<longrightarrow>
           (draft_currency t = ''UZS'' \<or> draft_currency t = ''USD'')"
  shows "\<exists>db' balances' new. add_multiple_transactions clock db uid ts =
             Inr (db', balances', map row_id new) \<and>
           transactions db' = transactions db @ new \<and>
           map row_id new = map (\<lambda>i. next_rowid db + int i) [0..<length new] \<and>
           map (\<lambda>r. (user_id r, trans_type r, category r, amount r, currency r)) new =
             map (\<lambda>t. (uid, d_type t, d_category t, d_amount t, draft_currency t))
               (kept_drafts ts) \<and>
           v \<in> set (kept_drafts ts) \<and> n \<in> set (kept_drafts ts)"
proof -
  have "v \<in> set (kept_drafts ts)" and "n \<in> set (kept_drafts ts)"
    using assms(1,2,5,6) by (simp_all add: kept_drafts_def)
  with add_commits_kept [OF assms(7), of clock db uid] show ?thesis by blast
qed

theorem negative_amount_committed_witness:
  "0 < d_amount tx_A \<and> d_amount tx_neg < 0 \<and>
   kept_drafts [tx_neg, tx_transfer, tx_A] = [tx_neg, tx_A] \<and>
   (\<exists>db' balances' new.
      add_multiple_transactions ex_clock init_db 7 [tx_neg, tx_transfer, tx_A] =
        Inr (db', balances', map row_id new) \<and>
      transactions db' = transactions (init_db :: real database) @ new \<and>
      map row_id new =
        map (\<lambda>i. next_rowid (init_db :: real database) + int i) [0..<length new] \<and>
      map (\<lambda>r. (user_id r, trans_type r, category r, amount r, currency r)) new =
        map (\<lambda>t. (7, d_type t, d_category t, d_amount t, draft_currency t))
          (kept_drafts [tx_neg, tx_transfer, tx_A]) \<and>
      tx_A \<in> set (kept_drafts [tx_neg, tx_transfer, tx_A]) \<and>
      tx_neg \<in> set (kept_drafts [tx_neg, tx_transfer, tx_A])) \<and>
   returned_ids ex_clock init_db (AppendBatch 7 [tx_neg, tx_transfer, tx_A]) = [1, 2] \<and>
   map amount (transactions (exec ex_clock init_db (AppendBatch 7 [tx_neg, tx_transfer, tx_A]))) =
     [- 5, 100] \<and>
   returned_ids ex_clock init_db (AppendBatch 7 [tx_A, tx_neg]) = [1, 2] \<and>
   map amount (transactions (exec ex_clock init_db (AppendBatch 7 [tx_A, tx_neg]))) =
     [100, - 5]"
proof -
  have h1: "tx_A \<in> set [tx_neg, tx_transfer, tx_A]"
    and h2: "tx_neg \<in> set [tx_neg, tx_transfer, tx_A]" by simp_all
  have h3: "0 < d_amount tx_A" and h4: "d_amount tx_neg < 0"
    by (simp_all add: tx_A_def tx_neg_def)
  have h5: "str_lower (d_type tx_A) = ''expense'' \<or> str_lower (d_type tx_A) = ''income''"
    and h6: "str_lower (d_type tx_neg) = ''expense'' \<or> str_lower (d_type tx_neg) = ''income''"
    by (simp_all add: tx_A_def tx_neg_def eval_simps)
  have h7: "\<forall>t\<in>set [tx_neg, tx_transfer, tx_A].
      (str_lower (d_type t) = ''expense'' \<or> str_lower (d_type t) = ''income'') \<longrightarrow>
      (draft_currency t = ''UZS'' \<or> draft_currency t = ''USD'')"
    by (simp add: tx_A_def tx_neg_def tx_transfer_def eval_simps)
  have k: "kept_drafts [tx_neg, tx_transfer, tx_A] = [tx_neg, tx_A]"
    by (simp add: kept_drafts_def tx_A_def tx_neg_def tx_transfer_def eval_simps)
  have e1: "returned_ids ex_clock init_db (AppendBatch 7 [tx_neg, tx_transfer, tx_A]) = [1, 2]"
    and e2: "map amount
        (transactions (exec ex_clock init_db (AppendBatch 7 [tx_neg, tx_transfer, tx_A]))) =
      [- 5, 100]"
    and e3: "returned_ids ex_clock init_db (AppendBatch 7 [tx_A, tx_neg]) = [1, 2]"
    and e4: "map amount (transactions (exec ex_clock init_db (AppendBatch 7 [tx_A, tx_neg]))) =
      [100, - 5]"
    by (simp_all add: tx_A_def tx_neg_def tx_transfer_def eval_simps)
  note concl = negative_amount_committed [OF h1 h2 h3 h4 h5 h6 h7, of ex_clock init_db 7]
  show ?thesis by (intro conjI h3 h4 k concl e1 e2 e3 e4)
qed

text \<open>
  C4, at the failing input. The transition is to succeed only for a row of category
  'Debt' and to fail, changing nothing, otherwise; the handler never tests the category.
  Row 2 of \<open>ex_debt_store\<close> is a 'Food' expense of 30 of user 7, with the status 'open'
  that every inserted row gets by the column default. The request \<^verbatim>\<open>debt_paid_2\<close> of
  user 7 is not refused: a 'Debt Repayment' income of 30 is appended and the status of
  row 2 becomes 'paid'.
\<close>

theorem debt_paid_accepts_non_debt:
  "map category (transactions ex_debt_store) = [''Debt'', ''Food''] \<and>
   button_handler_debt_paid ex_clock ex_debt_store 7 2 \<noteq> Inl NotCompleted \<and>
   map category
     (transactions (snd (projr (button_handler_debt_paid ex_clock ex_debt_store 7 2)))) =
     [''Debt'', ''Food'', ''Debt Repayment''] \<and>
   map amount
     (transactions (snd (projr (button_handler_debt_paid ex_clock ex_debt_store 7 2)))) =
     [10000, 30, 30] \<and>
   map debt_status
     (transactions (snd (projr (button_handler_debt_paid ex_clock ex_debt_store 7 2)))) =
     [''open'', ''paid'', ''open'']"
  by (simp add: ex_debt_store_def tx_debt_def tx_B_def eval_simps)

text \<open>
  C5, at the failing input. The transition is to be one atomic unit, with no reachable
  state in which one of its two writes is applied without the other. The handler commits
  twice, on two connections, where the deletion runs its writes in one transaction. For
  the loan of row 1 of \<open>ex_debt_store\<close> and the request \<^verbatim>\<open>debt_paid_1\<close> of user 7, the
  database committed first, by \<^verbatim>\<open>add_multiple_transactions\<close>, holds the repayment as a third
  row while the status of row 1 is still 'open'; only the second commit sets it to 'paid'.
\<close>

theorem debt_paid_half_applied:
  "map category
     (transactions (fst (projr (button_handler_debt_paid ex_clock ex_debt_store 7 1)))) =
     [''Debt'', ''Food'', ''Debt Repayment''] \<and>
   map debt_status
     (transactions (fst (projr (button_handler_debt_paid ex_clock ex_debt_store 7 1)))) =
     [''open'', ''open'', ''open''] \<and>
   map debt_status
     (transactions (snd (projr (button_handler_debt_paid ex_clock ex_debt_store 7 1)))) =
     [''paid'', ''open'', ''open'']"
  by (simp add: ex_debt_store_def tx_debt_def tx_B_def eval_simps)

text \<open>
  C6. \<^verbatim>\<open>get_last_balance\<close> upper-cases its currency argument and reads the rows of that
  user and that currency that are not deleted: when there is none it returns 0, and
  otherwise it returns the balance of a row of them whose id is the greatest. (The
  currencies of the ledger, 'UZS' and 'USD', are their own upper case.)
\<close>

theorem get_last_balance_latest:
  "(filter (in_stream uid (str_upper cur)) (transactions db) = [] \<and>
      get_last_balance db uid cur = 0) \<or>
   (\<exists>r\<in>set (filter (in_stream uid (str_upper cur)) (transactions db)).
      (\<forall>r'\<in>set (filter (in_stream uid (str_upper cur)) (transactions db)).
         row_id r' \<le> row_id r) \<and>
      get_last_balance db uid cur = balance r)"
proof -
  define S where "S = filter (in_stream uid (str_upper cur)) (transactions db)"
  define xs where "xs = sort_key row_id S"
  have glb: "get_last_balance db uid cur = (case rev xs of [] \<Rightarrow> 0 | r # _ \<Rightarrow> balance r)"
    by (simp add: get_last_balance_def order_by_id_desc_def xs_def S_def in_stream_def [abs_def])
  show ?thesis
  proof (cases "S = []")
    case True
    then show ?thesis using glb by (simp add: xs_def S_def [symmetric])
  next
    case False
    have "length xs = length S" by (simp add: xs_def)
    with False have ne: "xs \<noteq> []" by auto
    have "sorted (map row_id xs)" by (simp add: xs_def)
    from last_sorted_max [OF this ne] have
      "last xs \<in> set S" "\<forall>x\<in>set S. row_id x \<le> row_id (last xs)"
      by (simp_all add: xs_def)
    moreover have "get_last_balance db uid cur = balance (last xs)"
      using ne glb by (cases xs rule: rev_cases) simp_all
    ultimately show ?thesis unfolding S_def by blast
  qed
qed

theorem get_last_balance_latest_witness:
  "map row_id (filter (in_stream 7 (str_upper ''UZS''))
      (transactions (exec_all ex_clock init_db ex_requests))) = [1, 3] \<and>
   get_last_balance (exec_all ex_clock init_db ex_requests) 7 ''UZS'' = 150 \<and>
   filter (in_stream 7 (str_upper ''USD''))
      (transactions (exec_all ex_clock init_db ex_requests)) = [] \<and>
   get_last_balance (exec_all ex_clock init_db ex_requests) 7 ''USD'' = 0"
  using get_last_balance_latest [of 7 "''UZS''" "exec_all ex_clock init_db ex_requests"]
  by (simp add: eval_simps ex_requests_def tx_A_def tx_B_def tx_C_def)

text \<open>
  C7 (property P6). The scan of \<^verbatim>\<open>check_due_debts\<close> returns exactly the rows (as the five
  selected columns) whose category is 'Debt', whose status is 'open', that are not
  deleted and not notified, and whose return date is present and, as text, not after the
  day given. A run of the job in which no reminder of a due debt is delivered marks
  nothing: the database is as it was, and the scan returns the same again. Once
  \<^verbatim>\<open>notified\<close> is set for the id of a row of a table that keeps its constraints, no scan
  returns that id, on whatever day and after whatever requests.
\<close>

theorem due_scan:
  assumes wf: "wf_db db"
  shows "set (due_debts db today) =
           (\<lambda>r. (row_id r, user_id r, debtor_name r, amount r, currency r)) `
             {r \<in> set (transactions db). category r = ''Debt'' \<and> debt_status r = ''open'' \<and>
                \<not> is_deleted r \<and> \<not> notified r \<and> (\<exists>d. return_date r = Some d \<and> d \<le> today)} \<and>
         ((\<forall>d\<in>set (due_debts db today). \<not> delivered (fst d)) \<longrightarrow>
            check_due_debts delivered today db = db \<and>
            due_debts (check_due_debts delivered today db) today = due_debts db today) \<and>
         ((\<exists>r\<in>set (transactions db). row_id r = i) \<longrightarrow>
            i \<notin> fst ` set (due_debts (exec_all clock (mark_notified i db) reqs) today'))"
proof (intro conjI impI)
  have "\<And>r. is_due today r = (category r = ''Debt'' \<and> debt_status r = ''open'' \<and>
                \<not> is_deleted r \<and> \<not> notified r \<and> (\<exists>d. return_date r = Some d \<and> d \<le> today))"
    by (auto simp: is_due_def split: option.splits)
  then show "set (due_debts db today) =
           (\<lambda>r. (row_id r, user_id r, debtor_name r, amount r, currency r)) `
             {r \<in> set (transactions db). category r = ''Debt'' \<and> debt_status r = ''open'' \<and>
                \<not> is_deleted r \<and> \<not> notified r \<and> (\<exists>d. return_date r = Some d \<and> d \<le> today)}"
    by (auto simp: due_debts_def)
next
  assume nd: "\<forall>d\<in>set (due_debts db today). \<not> delivered (fst d)"
  then show same: "check_due_debts delivered today db = db"
    unfolding check_due_debts_def by (rule notify_loop_none)
  then show "due_debts (check_due_debts delivered today db) today = due_debts db today"
    by simp
next
  assume ex: "\<exists>r\<in>set (transactions db). row_id r = i"
  then have n0: "notified_inv i (mark_notified i db)" by (rule mark_notified_sets)
  define D where "D = exec_all clock (mark_notified i db) reqs"
  from exec_all_keeps_notified [OF mark_notified_wf [OF wf] n0] have n: "notified_inv i D"
    by (simp add: D_def)
  show "i \<notin> fst ` set (due_debts (exec_all clock (mark_notified i db) reqs) today')"
  proof
    assume "i \<in> fst ` set (due_debts (exec_all clock (mark_notified i db) reqs) today')"
    then obtain r where "r \<in> set (transactions D)" "is_due today' r" "row_id r = i"
      by (auto simp: due_debts_def D_def)
    with n show False by (auto simp: notified_inv_def is_due_def)
  qed
qed

theorem due_scan_witness:
  "wf_db ex_debt_store \<and>
   due_debts ex_debt_store ''2025-10-01'' = [(1, 7, Some ''Aziz'', 10000, ''UZS'')] \<and>
   due_debts ex_debt_store ''2025-09-24'' = [] \<and>
   check_due_debts (\<lambda>i. False) ''2025-10-01'' ex_debt_store = ex_debt_store \<and>
   due_debts (check_due_debts (\<lambda>i. False) ''2025-10-01'' ex_debt_store) ''2025-10-01'' =
     due_debts ex_debt_store ''2025-10-01'' \<and>
   due_debts (check_due_debts (\<lambda>i. True) ''2025-10-01'' ex_debt_store) ''2025-10-01'' = [] \<and>
   1 \<notin> fst ` set (due_debts (exec_all ex_clock (mark_notified 1 ex_debt_store) ex_requests_after)
                    ''2025-10-03'')"
proof -
  have es: "transactions ex_debt_store =
      [new_row ex_clock 1 7 tx_debt ''UZS'' (- 10000), new_row ex_clock 2 7 tx_B ''UZS'' (- 10030)]"
    "sqlite_sequence ex_debt_store = 2"
    by (simp_all add: ex_debt_store_def tx_debt_def tx_B_def eval_simps)
  have wf: "wf_db ex_debt_store"
    by (simp add: wf_db_def es new_row_def)
  have d1: "due_debts ex_debt_store ''2025-10-01'' = [(1, 7, Some ''Aziz'', 10000, ''UZS'')]"
    and d2: "due_debts ex_debt_store ''2025-09-24'' = []"
    by (simp_all add: es new_row_def tx_debt_def tx_B_def due_debts_def is_due_def)
  have d3: "due_debts (check_due_debts (\<lambda>i. True) ''2025-10-01'' ex_debt_store) ''2025-10-01'' = []"
    by (simp add: check_due_debts_def d1 mark_notified_def es new_row_def tx_debt_def tx_B_def
        due_debts_def is_due_def)
  have nd: "\<forall>d\<in>set (due_debts ex_debt_store ''2025-10-01''). \<not> (\<lambda>i. False) (fst d)" by simp
  have ex: "\<exists>r\<in>set (transactions ex_debt_store). row_id r = 1"
    by (simp add: es new_row_def)
  note scan = due_scan [OF wf, of "''2025-10-01''" "\<lambda>i. False" 1 ex_clock ex_requests_after
      "''2025-10-03''"]
  note no_delivery = scan [THEN conjunct2, THEN conjunct1, THEN mp, OF nd]
  note c1 = no_delivery [THEN conjunct1] and c2 = no_delivery [THEN conjunct2]
  note c3 = scan [THEN conjunct2, THEN conjunct2, THEN mp, OF ex]
  show ?thesis by (intro conjI wf d1 d2 c1 c2 d3 c3)
qed

text \<open>
  C8 (invariant I4, property P4). In a table that keeps its constraints: a batch leaves
  every row that was there as it is, and the balances of the stream of any user and
  currency afterwards are the balances before, followed (for the batch's user) by the
  running balances of the batch's candidates of that currency, started from the last
  balance of that same stream; so a batch without a candidate in a currency changes no
  balance under it. A deletion of a row \<open>t\<close> leaves every row of another currency as it
  is, and every stream of another user or another currency; the stream of \<open>t\<close>'s user and
  currency afterwards is computed from that stream alone: the rows before \<open>t\<close>, then the
  rows after \<open>t\<close> with their balances refolded from the last balance before \<open>t\<close>.
\<close>

theorem currency_isolation:
  assumes wf: "wf_db db"
  shows "(add_multiple_transactions clock db uid ts = Inr (db1, bals, ids) \<longrightarrow>
            (\<exists>new. transactions db1 = transactions db @ new) \<and>
            (\<forall>u x. map balance (stream db1 u x) =
               map balance (stream db u x) @
               (if u = uid
                then running_balances (last_balance 0 (stream db uid x)) (drafts_in x ts)
                else []))) \<and>
         (delete_transaction_and_recalculate db uid tid = Inr db2 \<longrightarrow>
            (\<exists>t\<in>set (transactions db). row_id t = tid \<and> user_id t = uid \<and> \<not> is_deleted t \<and>
               filter (\<lambda>r. currency r \<noteq> currency t) (transactions db2) =
                 filter (\<lambda>r. currency r \<noteq> currency t) (transactions db) \<and>
               (\<forall>u x. u \<noteq> uid \<or> x \<noteq> currency t \<longrightarrow> stream db2 u x = stream db u x) \<and>
               stream db2 uid (currency t) =
                 takeWhile (\<lambda>r. row_id r < tid) (stream db uid (currency t)) @
                 refold (\<lambda>r. True)
                   (last_balance 0 (takeWhile (\<lambda>r. row_id r < tid) (stream db uid (currency t))))
                   (dropWhile (\<lambda>r. row_id r \<le> tid) (stream db uid (currency t)))))"
proof (intro conjI impI)
  assume a: "add_multiple_transactions clock db uid ts = Inr (db1, bals, ids)"
  from add_multiple_transactions_rows [OF a]
  show "\<exists>new. transactions db1 = transactions db @ new" by blast
  show "\<forall>u x. map balance (stream db1 u x) =
               map balance (stream db u x) @
               (if u = uid
                then running_balances (last_balance 0 (stream db uid x)) (drafts_in x ts)
                else [])"
    using add_stream_balances [OF a wf] by blast
next
  assume "delete_transaction_and_recalculate db uid tid = Inr db2"
  with wf show "\<exists>t\<in>set (transactions db). row_id t = tid \<and> user_id t = uid \<and> \<not> is_deleted t \<and>
               filter (\<lambda>r. currency r \<noteq> currency t) (transactions db2) =
                 filter (\<lambda>r. currency r \<noteq> currency t) (transactions db) \<and>
               (\<forall>u x. u \<noteq> uid \<or> x \<noteq> currency t \<longrightarrow> stream db2 u x = stream db u x) \<and>
               stream db2 uid (currency t) =
                 takeWhile (\<lambda>r. row_id r < tid) (stream db uid (currency t)) @
                 refold (\<lambda>r. True)
                   (last_balance 0 (takeWhile (\<lambda>r. row_id r < tid) (stream db uid (currency t))))
                   (dropWhile (\<lambda>r. row_id r \<le> tid) (stream db uid (currency t)))"
    by (rule delete_streams)
qed

theorem currency_isolation_witness:
  "wf_db ex_store_two \<and>
   add_multiple_transactions ex_clock ex_store_two 7 [tx_B] =
     Inr (ex_store_two_add, [(''UZS'', 90), (''USD'', - 20)], [5]) \<and>
   drafts_in ''USD'' [tx_B] = [] \<and>
   map balance (stream ex_store_two_add 7 ''USD'') = map balance (stream ex_store_two 7 ''USD'') \<and>
   map balance (stream ex_store_two_add 7 ''USD'') = [- 20] \<and>
   map balance (stream ex_store_two_add 7 ''UZS'') = [100, 70, 120, 90] \<and>
   delete_transaction_and_recalculate ex_store_two 7 3 = Inr ex_store_two_del \<and>
   stream ex_store_two_del 7 ''USD'' = stream ex_store_two 7 ''USD'' \<and>
   map balance (filter (\<lambda>r. currency r \<noteq> ''UZS'') (transactions ex_store_two_del)) = [- 20] \<and>
   map balance (stream ex_store_two_del 7 ''UZS'') = [100, 150]"
proof -
  have es: "transactions ex_store_two =
      [new_row ex_clock 1 7 tx_A ''UZS'' 100, new_row ex_clock 2 7 tx_USD ''USD'' (- 20),
       new_row ex_clock 3 7 tx_B ''UZS'' 70, new_row ex_clock 4 7 tx_C ''UZS'' 120]"
    "sqlite_sequence ex_store_two = 4"
    by (simp_all add: ex_store_two_def tx_A_def tx_B_def tx_C_def tx_USD_def eval_simps)
  have wf: "wf_db ex_store_two"
    by (simp add: wf_db_def es new_row_def)
  have a: "add_multiple_transactions ex_clock ex_store_two 7 [tx_B] =
     Inr (ex_store_two_add, [(''UZS'', 90), (''USD'', - 20)], [5])"
    by (simp add: ex_store_two_add_def es tx_A_def tx_B_def tx_C_def tx_USD_def eval_simps)
  have d: "delete_transaction_and_recalculate ex_store_two 7 3 = Inr ex_store_two_del"
    by (simp add: ex_store_two_del_def es tx_A_def tx_B_def tx_C_def tx_USD_def eval_simps)
  have dr: "drafts_in ''USD'' [tx_B] = []"
    by (simp add: drafts_in_def tx_B_def eval_simps)
  have su: "map balance (stream ex_store_two 7 ''USD'') = [- 20]"
    by (simp add: es tx_A_def tx_B_def tx_C_def tx_USD_def eval_simps)
  have sz: "map balance (stream ex_store_two_add 7 ''UZS'') = [100, 70, 120, 90]"
    by (simp add: ex_store_two_add_def es tx_A_def tx_B_def tx_C_def tx_USD_def eval_simps)
  have dz: "map balance (stream ex_store_two_del 7 ''UZS'') = [100, 150]"
    by (simp add: ex_store_two_del_def es tx_A_def tx_B_def tx_C_def tx_USD_def eval_simps)
  have t3: "\<And>t. t \<in> set (transactions ex_store_two) \<Longrightarrow> row_id t = 3 \<Longrightarrow> currency t = ''UZS''"
    by (auto simp: es new_row_def)
  from currency_isolation [OF wf, of ex_clock 7 "[tx_B]" ex_store_two_add
      "[(''UZS'', 90), (''USD'', - 20)]" "[5]" 3 ex_store_two_del] a d
  have i1: "map balance (stream ex_store_two_add 7 ''USD'') =
        map balance (stream ex_store_two 7 ''USD'') @
        running_balances (last_balance 0 (stream ex_store_two 7 ''USD'')) (drafts_in ''USD'' [tx_B])"
    and i2: "\<exists>t\<in>set (transactions ex_store_two). row_id t = 3 \<and>
        filter (\<lambda>r. currency r \<noteq> currency t) (transactions ex_store_two_del) =
          filter (\<lambda>r. currency r \<noteq> currency t) (transactions ex_store_two) \<and>
        (\<forall>u x. u \<noteq> 7 \<or> x \<noteq> currency t \<longrightarrow> stream ex_store_two_del u x = stream ex_store_two u x)"
    by auto
  from i1 have j1: "map balance (stream ex_store_two_add 7 ''USD'') =
      map balance (stream ex_store_two 7 ''USD'')"
    by (simp add: dr)
  from i2 t3 have j2: "stream ex_store_two_del 7 ''USD'' = stream ex_store_two 7 ''USD''"
    and j3: "filter (\<lambda>r. currency r \<noteq> ''UZS'') (transactions ex_store_two_del) =
          filter (\<lambda>r. currency r \<noteq> ''UZS'') (transactions ex_store_two)"
    by auto
  have j4: "map balance (filter (\<lambda>r. currency r \<noteq> ''UZS'') (transactions ex_store_two_del)) = [- 20]"
    by (simp add: j3 es new_row_def)
  from wf a dr j1 su sz d j2 j4 dz show ?thesis by simp
qed

text \<open>
  C9 (invariant I2). Along any sequence of requests from the empty table, the ids that
  the batches return, in the order of assignment, are strictly increasing: each newly
  assigned id is greater than every id assigned before it, also after deletions. Every
  returned id is still the id of a row of the table (deletion keeps the row), and no two
  rows share an id.
\<close>

theorem ids_strictly_increasing:
  "sorted_wrt (<) (id_log clock init_db reqs) \<and>
   set (id_log clock init_db reqs) \<subseteq> row_id ` set (transactions (exec_all clock init_db reqs)) \<and>
   distinct (map row_id (transactions (exec_all clock init_db reqs)))"
proof -
  from exec_all_inv [OF wf_init_db fold_inv_init_db, of clock reqs]
  have "wf_db (exec_all clock init_db reqs)" by simp
  then have "distinct (map row_id (transactions (exec_all clock init_db reqs)))"
    by (simp add: wf_db_def strict_sorted_iff)
  with id_log_sorted [OF wf_init_db fold_inv_init_db, of clock reqs] show ?thesis
    by auto
qed

theorem ids_strictly_increasing_witness:
  "id_log ex_clock init_db ex_requests_reinsert = [1, 2, 3, 4] \<and>
   sorted_wrt (<) (id_log ex_clock init_db ex_requests_reinsert) \<and>
   set (id_log ex_clock init_db ex_requests_reinsert) \<subseteq>
     row_id ` set (transactions (exec_all ex_clock init_db ex_requests_reinsert)) \<and>
   distinct (map row_id (transactions (exec_all ex_clock init_db ex_requests_reinsert)))"
  using ids_strictly_increasing [of ex_clock ex_requests_reinsert]
  by (simp add: eval_simps ex_requests_reinsert_def tx_A_def tx_B_def tx_C_def)

text \<open>
  C10. A batch that holds a candidate whose lower-cased type is 'income' or 'expense' and
  whose currency, as the function reads it (the default 'UZS' for a missing one, then
  upper-cased), is neither 'UZS' nor 'USD' raises \<^verbatim>\<open>KeyError\<close>; nothing of the batch is
  committed, the candidates before it included: the database is as it was.
\<close>

theorem unknown_currency_aborts_batch:
  assumes "t \<in> set ts"
    and "str_lower (d_type t) = ''income'' \<or> str_lower (d_type t) = ''expense''"
    and "draft_currency t \<noteq> ''UZS''" and "draft_currency t \<noteq> ''USD''"
  shows "(\<exists>c. add_multiple_transactions clock db uid ts = Inl (KeyError c)) \<and>
         exec clock db (AppendBatch uid ts) = db"
proof -
  have "draft_currency t \<notin> dom (map_of [(''UZS'', get_last_balance db uid ''UZS''),
          (''USD'', get_last_balance db uid ''USD'')])"
    using assms(3,4) by auto
  from add_loop_KeyError [OF assms(1) _ this, of clock uid db "[]"] assms(2)
  obtain c where "add_multiple_transactions clock db uid ts = Inl (KeyError c)"
    by (auto simp: add_multiple_transactions_def)
  then show ?thesis by simp
qed

theorem unknown_currency_aborts_batch_witness:
  "tx_EUR \<in> set [tx_A, tx_EUR] \<and> str_lower (d_type tx_EUR) = ''income'' \<and>
   draft_currency tx_EUR = ''EUR'' \<and>
   add_multiple_transactions ex_clock init_db 7 [tx_A, tx_EUR] = Inl (KeyError ''EUR'') \<and>
   exec ex_clock init_db (AppendBatch 7 [tx_A, tx_EUR]) = (init_db :: real database)"
proof -
  have h1: "tx_EUR \<in> set [tx_A, tx_EUR]" by simp
  have h2: "str_lower (d_type tx_EUR) = ''income'' \<or> str_lower (d_type tx_EUR) = ''expense''"
    by (simp add: tx_EUR_def eval_simps)
  have h3: "draft_currency tx_EUR \<noteq> ''UZS''" and h4: "draft_currency tx_EUR \<noteq> ''USD''"
    by (simp_all add: tx_EUR_def eval_simps)
  from unknown_currency_aborts_batch [OF h1 h2 h3 h4, of ex_clock init_db 7]
  show ?thesis by (simp add: tx_EUR_def tx_A_def eval_simps)
qed

end
